theory Spec2Isabelle
  imports Complex_Main
begin

section \<open>JSON values and JavaScript objects\<close>

text \<open>
  The export document and the operations are JSON data. A JavaScript object is an
  association list in insertion order; a missing key reads as \<open>undefined\<close>, which is
  \<open>None\<close> here. Strings are lists of code units below 256.
\<close>

datatype json =
    JNull
  | JBool bool
  | JNum int
  | JStr string
  | JArr "json list"
  | JObj "(string \<times> json) list"

type_synonym obj = "(string \<times> json) list"

definition obj_get :: "obj \<Rightarrow> string \<Rightarrow> json option" where
  "obj_get ob k = map_of ob k"

text \<open>\<open>ob[k] = v\<close>: an existing key keeps its place, a new key goes last.\<close>

fun obj_set :: "obj \<Rightarrow> string \<Rightarrow> json \<Rightarrow> obj" where
  "obj_set [] k v = [(k, v)]"
| "obj_set ((k', v') # ob) k v =
     (if k' = k then (k, v) # ob else (k', v') # obj_set ob k v)"

text \<open>JavaScript truthiness of a value that may be \<open>undefined\<close>.\<close>

fun truthy :: "json option \<Rightarrow> bool" where
  "truthy None = False"
| "truthy (Some JNull) = False"
| "truthy (Some (JBool b)) = b"
| "truthy (Some (JNum n)) = (n \<noteq> 0)"
| "truthy (Some (JStr s)) = (s \<noteq> [])"
| "truthy (Some (JArr xs)) = True"
| "truthy (Some (JObj ob)) = True"

definition truthy_str :: "string option \<Rightarrow> bool" where
  "truthy_str s = (case s of None \<Rightarrow> False | Some t \<Rightarrow> t \<noteq> [])"

text \<open>\<open>a || b\<close> on optional strings.\<close>

definition or_else :: "string option \<Rightarrow> string option \<Rightarrow> string option" where
  "or_else a b = (if truthy_str a then a else b)"

section \<open>The node model\<close>

text \<open>
  An element of the stencil is an object with the keys \<open>uid\<close>, \<open>element_type\<close>
  (\<open>group\<close>, \<open>text\<close> or \<open>attribute\<close>), \<open>name\<close> (the field name of an attribute
  element), \<open>label\<close>, \<open>config\<close>, \<open>styling\<close>, \<open>visibility\<close> and \<open>elements\<close>
  (the children); every key may be missing. The model types \<open>uid\<close>, \<open>element_type\<close>,
  \<open>name\<close>, \<open>label\<close>, \<open>config.label\<close> and \<open>config.text\<close> as strings, which is what
  the interpreter's string methods require of them; \<open>cfg_props\<close> holds the other keys
  of \<open>config\<close> and \<open>extras\<close> the other keys of the element.

  Elements are objects that the interpreter mutates in place, so each one carries its
  identity: \<open>addr\<close> is the address of the object, and stands for the element together
  with the \<open>config\<close>, \<open>styling\<close> and \<open>visibility\<close> objects and the \<open>elements\<close> array
  that it alone refers to.
\<close>

record config =
  cfg_label :: "string option"
  cfg_text :: "string option"
  cfg_props :: obj

datatype element = Element
  (addr: nat)
  (uid: "string option")
  (element_type: "string option")
  (name: "string option")
  (label: "string option")
  (config: "config option")
  (styling: "obj option")
  (visibility: "obj option")
  (elements: "element list option")
  (extras: obj)

fun set_uid :: "string option \<Rightarrow> element \<Rightarrow> element" where
  "set_uid u' (Element ad u t n l c s v ks x) = Element ad u' t n l c s v ks x"

fun set_name :: "string option \<Rightarrow> element \<Rightarrow> element" where
  "set_name n' (Element ad u t n l c s v ks x) = Element ad u t n' l c s v ks x"

fun set_label :: "string option \<Rightarrow> element \<Rightarrow> element" where
  "set_label l' (Element ad u t n l c s v ks x) = Element ad u t n l' c s v ks x"

fun set_config :: "config option \<Rightarrow> element \<Rightarrow> element" where
  "set_config c' (Element ad u t n l c s v ks x) = Element ad u t n l c' s v ks x"

fun set_styling :: "obj option \<Rightarrow> element \<Rightarrow> element" where
  "set_styling s' (Element ad u t n l c s v ks x) = Element ad u t n l c s' v ks x"

fun set_visibility :: "obj option \<Rightarrow> element \<Rightarrow> element" where
  "set_visibility v' (Element ad u t n l c s v ks x) = Element ad u t n l c s v' ks x"

fun set_elements :: "element list option \<Rightarrow> element \<Rightarrow> element" where
  "set_elements ks' (Element ad u t n l c s v ks x) = Element ad u t n l c s v ks' x"

text \<open>
  A reference to an element as the interpreter holds it after alias resolution:
  \<open>undefined\<close>, a string, or a member inherited from \<open>Object.prototype\<close> (what the
  lookup \<open>aliases[key]\<close> in the object literal \<open>{}\<close> returns for a key such as
  \<open>constructor\<close>), which is strictly equal to no \<open>uid\<close>.
\<close>

datatype ref = Undefined | Ref string | Inherited

text \<open>\<open>el.uid === r\<close>\<close>

fun uid_is :: "element \<Rightarrow> ref \<Rightarrow> bool" where
  "uid_is el Undefined = (uid el = None)"
| "uid_is el (Ref s) = (uid el = Some s)"
| "uid_is el Inherited = False"

section \<open>Locator\<close>

function findElementByUid :: "element list \<Rightarrow> ref \<Rightarrow> element option" where
  "findElementByUid [] r = None"
| "findElementByUid (el # rest) r =
     (if uid_is el r then Some el
      else case elements el of
          None \<Rightarrow> findElementByUid rest r
        | Some kids \<Rightarrow>
            (case findElementByUid kids r of
               Some found \<Rightarrow> Some found
             | None \<Rightarrow> findElementByUid rest r))"
  by pat_completeness auto
termination
proof (relation "measure (\<lambda>(es, r). size_list size es)")
  fix el :: element and rest r kids
  assume "elements el = Some kids"
  then have "size_list size kids < size el" by (cases el) auto
  then show "((kids, r), el # rest, r) \<in> measure (\<lambda>(es, r). size_list size es)" by simp
qed auto

text \<open>
  \<open>findParentOf\<close> returns the array that holds the element, the index in it and the
  parent element (\<open>null\<close> at the top level); the loop index is the fourth argument.
\<close>

record parent_ctx =
  ctx_parent :: "element option"
  ctx_array :: "element list"
  ctx_index :: nat

function findParentOf_loop ::
  "element list \<Rightarrow> element list \<Rightarrow> nat \<Rightarrow> ref \<Rightarrow> element option \<Rightarrow> parent_ctx option" where
  "findParentOf_loop arr [] i r parent = None"
| "findParentOf_loop arr (el # rest) i r parent =
     (if uid_is el r then Some \<lparr>ctx_parent = parent, ctx_array = arr, ctx_index = i\<rparr>
      else case elements el of
          None \<Rightarrow> findParentOf_loop arr rest (Suc i) r parent
        | Some kids \<Rightarrow>
            (case findParentOf_loop kids kids 0 r (Some el) of
               Some found \<Rightarrow> Some found
             | None \<Rightarrow> findParentOf_loop arr rest (Suc i) r parent))"
  by pat_completeness auto
termination
proof (relation "measure (\<lambda>(arr, es, i, r, p). size_list size es)")
  fix el :: element and arr rest i r parent kids
  assume "elements el = Some kids"
  then have "size_list size kids < size el" by (cases el) auto
  then show "((kids, kids, 0, r, Some el), arr, el # rest, i, r, parent)
    \<in> measure (\<lambda>(arr, es, i, r, p). size_list size es)" by simp
qed auto

definition findParentOf :: "element list \<Rightarrow> ref \<Rightarrow> parent_ctx option" where
  "findParentOf es r = findParentOf_loop es es 0 r None"

text \<open>
  The interpreter mutates the array that \<open>findParentOf\<close> returns, at the index of the
  first element whose \<open>uid\<close> is the reference: \<open>array.splice(idx, 1, ...f(array[idx]))\<close>.
  \<open>spliceByUid f r es\<close> is the forest after that mutation, the element found being
  replaced in its array by the list \<open>f\<close> gives; it is \<open>None\<close> when \<open>findParentOf\<close>
  returns \<open>null\<close>. An update in place of the element that \<open>findElementByUid\<close> returns
  is the case \<open>f el = [g el]\<close>: both searches visit the forest in the same order.
\<close>

function spliceByUid ::
  "(element \<Rightarrow> element list) \<Rightarrow> ref \<Rightarrow> element list \<Rightarrow> element list option" where
  "spliceByUid f r [] = None"
| "spliceByUid f r (el # rest) =
     (if uid_is el r then Some (f el @ rest)
      else case elements el of
          None \<Rightarrow> map_option ((#) el) (spliceByUid f r rest)
        | Some kids \<Rightarrow>
            (case spliceByUid f r kids of
               Some kids' \<Rightarrow> Some (set_elements (Some kids') el # rest)
             | None \<Rightarrow> map_option ((#) el) (spliceByUid f r rest)))"
  by pat_completeness auto
termination
proof (relation "measure (\<lambda>(f, r, es). size_list size es)")
  fix el :: element and f r rest kids
  assume "elements el = Some kids"
  then have "size_list size kids < size el" by (cases el) auto
  then show "((f, r, kids), f, r, el # rest) \<in> measure (\<lambda>(f, r, es). size_list size es)"
    by simp
qed auto

section \<open>Strings and regular expressions\<close>

text \<open>Character classes of the regular expressions: \<open>\d\<close>, \<open>[0-9a-fA-F]\<close>, \<open>\w\<close>, \<open>\s\<close>.\<close>

definition is_digit :: "char \<Rightarrow> bool" where
  "is_digit c = (c \<in> set ''0123456789'')"

definition is_hex :: "char \<Rightarrow> bool" where
  "is_hex c = (c \<in> set ''0123456789abcdefABCDEF'')"

definition is_word :: "char \<Rightarrow> bool" where
  "is_word c =
     (c \<in> set ''abcdefghijklmnopqrstuvwxyzABCDEFGHIJKLMNOPQRSTUVWXYZ0123456789_'')"

definition is_space :: "char \<Rightarrow> bool" where
  "is_space c = (c \<in> set [CHR 0x09, CHR 0x0A, CHR 0x0B, CHR 0x0C, CHR 0x0D, CHR 0x20, CHR 0xA0])"

text \<open>
  \<open>toLowerCase\<close> on one code unit, and the canonical form under which the flag \<open>i\<close>
  compares code units (the upper case, when that is one code unit), for code units
  below 256.
\<close>

definition to_lower :: "char \<Rightarrow> char" where
  "to_lower c =
     (let n = of_char c :: nat
      in if (65 \<le> n \<and> n \<le> 90) \<or> (192 \<le> n \<and> n \<le> 222 \<and> n \<noteq> 215)
         then char_of (n + 32) else c)"

definition canonicalize :: "char \<Rightarrow> char" where
  "canonicalize c =
     (let n = of_char c :: nat
      in if (97 \<le> n \<and> n \<le> 122) \<or> (224 \<le> n \<and> n \<le> 254 \<and> n \<noteq> 247)
         then char_of (n - 32) else c)"

text \<open>
  \<open>strip_ci p s\<close> matches the literal \<open>p\<close> at the start of \<open>s\<close> under the flag \<open>i\<close>
  and returns what follows it.
\<close>

fun strip_ci :: "string \<Rightarrow> string \<Rightarrow> string option" where
  "strip_ci [] s = Some s"
| "strip_ci (p # ps) [] = None"
| "strip_ci (p # ps) (c # cs) =
     (if canonicalize p = canonicalize c then strip_ci ps cs else None)"

definition skip_space :: "string \<Rightarrow> string" where
  "skip_space s = dropWhile is_space s"

text \<open>\<open>\b\<close> after a word character: the end of the string or a character outside \<open>\w\<close>.\<close>

definition at_word_end :: "string \<Rightarrow> bool" where
  "at_word_end s = (case s of [] \<Rightarrow> True | c # cs \<Rightarrow> \<not> is_word c)"

text \<open>
  \<open>String.prototype.replace\<close> with a global regular expression none of whose matches
  is empty. The matcher sees the string from the current position on and returns the
  length of the match there and its captures; the replacer gets the captures, the part
  of the string before the match, the match and the part after it. The scan goes on
  behind the match, or one character further when there is none.
\<close>

fun replace_global ::
  "(string \<Rightarrow> (nat \<times> 'c) option) \<Rightarrow> ('c \<Rightarrow> string \<Rightarrow> string \<Rightarrow> string \<Rightarrow> string)
    \<Rightarrow> string \<Rightarrow> string \<Rightarrow> string" where
  "replace_global m rep preceding [] = []"
| "replace_global m rep preceding (c # cs) =
     (case m (c # cs) of
        Some (n, caps) \<Rightarrow>
          rep caps preceding (take n (c # cs)) (drop n (c # cs))
            @ replace_global m rep (preceding @ take n (c # cs)) (drop (n - 1) cs)
      | None \<Rightarrow> c # replace_global m rep (preceding @ [c]) cs)"

text \<open>The same when the replacer is a callback that may throw.\<close>

datatype js_error = TypeError

fun replace_global_err ::
  "(string \<Rightarrow> (nat \<times> 'c) option) \<Rightarrow> ('c \<Rightarrow> string \<Rightarrow> js_error + string)
    \<Rightarrow> string \<Rightarrow> js_error + string" where
  "replace_global_err m rep [] = Inr []"
| "replace_global_err m rep (c # cs) =
     (case m (c # cs) of
        Some (n, caps) \<Rightarrow>
          (case rep caps (take n (c # cs)) of
             Inl e \<Rightarrow> Inl e
           | Inr out \<Rightarrow>
               (case replace_global_err m rep (drop (n - 1) cs) of
                  Inl e \<Rightarrow> Inl e
                | Inr outs \<Rightarrow> Inr (out @ outs)))
      | None \<Rightarrow>
          (case replace_global_err m rep cs of
             Inl e \<Rightarrow> Inl e
           | Inr outs \<Rightarrow> Inr (c # outs)))"

text \<open>
  The expansion of a replacement pattern (\<open>GetSubstitution\<close>): \<open>$$\<close>, \<open>$&\<close>, the
  part before the match, the part after it (after \<open>$\<close> and an apostrophe), \<open>$n\<close> and
  \<open>$nn\<close> for the captures. A two-digit index beyond the number of captures is read
  as one digit and a literal digit; an index that names no capture stays as it is
  written. None of the regular expressions here has named groups.
\<close>

definition digit_val :: "char \<Rightarrow> nat" where
  "digit_val c = (of_char c :: nat) - 48"

fun getSubstitution ::
  "string \<Rightarrow> string \<Rightarrow> string \<Rightarrow> string list \<Rightarrow> string \<Rightarrow> string" where
  "getSubstitution matched preceding following caps [] = []"
| "getSubstitution matched preceding following caps [c] = [c]"
| "getSubstitution matched preceding following caps (c # d # t) =
     (if c \<noteq> CHR ''$'' then c # getSubstitution matched preceding following caps (d # t)
      else if d = CHR ''$'' then CHR ''$'' # getSubstitution matched preceding following caps t
      else if d = CHR 0x60 then preceding @ getSubstitution matched preceding following caps t
      else if d = CHR ''&'' then matched @ getSubstitution matched preceding following caps t
      else if d = CHR 0x27 then following @ getSubstitution matched preceding following caps t
      else if is_digit d then
        (case t of
           e # t' \<Rightarrow>
             if is_digit e \<and> 10 * digit_val d + digit_val e \<le> length caps then
               (if 1 \<le> 10 * digit_val d + digit_val e
                then caps ! (10 * digit_val d + digit_val e - 1)
                       @ getSubstitution matched preceding following caps t'
                else c # d # e # getSubstitution matched preceding following caps t')
             else if 1 \<le> digit_val d \<and> digit_val d \<le> length caps
             then caps ! (digit_val d - 1) @ getSubstitution matched preceding following caps t
             else c # d # getSubstitution matched preceding following caps t
         | [] \<Rightarrow>
             if 1 \<le> digit_val d \<and> digit_val d \<le> length caps
             then caps ! (digit_val d - 1)
             else [c, d])
      else c # getSubstitution matched preceding following caps (d # t))"

text \<open>
  The literal, case-insensitive, global replacement of \<open>bulk_replace\<close> and of the label
  transformation: \<open>text.replace(new RegExp(escape(find), 'gi'), replacement)\<close>, for a
  non-empty \<open>find\<close>.
\<close>

definition match_literal :: "string \<Rightarrow> string \<Rightarrow> (nat \<times> unit) option" where
  "match_literal pat s =
     (case strip_ci pat s of None \<Rightarrow> None | Some rest \<Rightarrow> Some (length pat, ()))"

definition replace_literal :: "string \<Rightarrow> string \<Rightarrow> string \<Rightarrow> string" where
  "replace_literal pat replacement s =
     replace_global (match_literal pat)
       (\<lambda>caps preceding matched following. getSubstitution matched preceding following [] replacement) [] s"

text \<open>Numbers: \<open>parseInt\<close> and the conversion of a number to a string.\<close>

definition hex_val :: "char \<Rightarrow> nat" where
  "hex_val c =
     (let n = of_char c :: nat
      in if 48 \<le> n \<and> n \<le> 57 then n - 48
         else if 97 \<le> n \<and> n \<le> 102 then n - 87
         else n - 55)"

text \<open>
  \<open>parseInt(s, 16)\<close>: leading white space, a sign and the prefix \<open>0x\<close> are skipped, then
  the longest run of hexadecimal digits is read; \<open>None\<close> is \<open>NaN\<close>.
\<close>

definition strip_sign :: "string \<Rightarrow> bool \<times> string" where
  "strip_sign s =
     (case s of
        c # cs \<Rightarrow> if c = CHR ''-'' then (True, cs) else if c = CHR ''+'' then (False, cs) else (False, s)
      | [] \<Rightarrow> (False, s))"

definition strip_0x :: "string \<Rightarrow> string" where
  "strip_0x s =
     (case s of
        c # d # cs \<Rightarrow> if c = CHR ''0'' \<and> (d = CHR ''x'' \<or> d = CHR ''X'') then cs else s
      | _ \<Rightarrow> s)"

definition parseInt16 :: "string \<Rightarrow> int option" where
  "parseInt16 s =
     (let (neg, s1) = strip_sign (skip_space s);
          z = takeWhile is_hex (strip_0x s1)
      in if z = [] then None
         else let v = int (foldl (\<lambda>acc c. 16 * acc + hex_val c) 0 z)
              in Some (if neg then - v else v))"

text \<open>
  Numbers are IEEE 754 doubles. A finite double is kept as the rational number it
  denotes (the sign of a zero apart, which nothing here reads), \<open>Infinite True\<close> is
  \<open>-Infinity\<close>. \<open>round_double\<close> gives the double nearest to a rational number, ties
  going to the even mantissa: 53 bits of mantissa above the exponent \<open>-1022\<close>, the
  fixed step \<open>2^-1074\<close> below it. The rounded value has the exponent of the number, or
  the next one when the mantissa has gone up to \<open>2^53\<close>, and is infinite from the
  exponent 1024 on. Each arithmetic operation is the exact one followed by this
  rounding.
\<close>

datatype number = Finite rat | Infinite bool | NaN

function bit_length :: "nat \<Rightarrow> nat" where
  "bit_length n = (if n = 0 then 0 else Suc (bit_length (n div 2)))"
  by pat_completeness auto
termination
  by (relation "measure id") auto

definition pow2 :: "int \<Rightarrow> rat" where
  "pow2 k = (if 0 \<le> k then 2 ^ nat k else 1 / 2 ^ nat (- k))"

text \<open>The exponent \<open>e\<close> with \<open>2^e \<le> q < 2^(e+1)\<close>, for \<open>q > 0\<close>.\<close>

definition floor_log2 :: "rat \<Rightarrow> int" where
  "floor_log2 q =
     (let (a, b) = quotient_of q;
          k = int (bit_length (nat a)) - int (bit_length (nat b))
      in if pow2 k \<le> q then k else k - 1)"

definition round_positive :: "rat \<Rightarrow> number" where
  "round_positive q =
     (let e = floor_log2 q;
          u = pow2 (max e (- 1022) - 52);
          m = q / u;
          n = \<lfloor>m\<rfloor>;
          n' = (if m - of_int n < 1 / 2 then n
                else if 1 / 2 < m - of_int n then n + 1
                else if even n then n else n + 1)
      in if 1024 \<le> (if n' = 2 ^ 53 then e + 1 else e) then Infinite False
         else Finite (of_int n' * u))"

definition round_double :: "rat \<Rightarrow> number" where
  "round_double q =
     (if q = 0 then Finite 0
      else if 0 < q then round_positive q
      else (case round_positive (- q) of Finite v \<Rightarrow> Finite (- v) | _ \<Rightarrow> Infinite True))"

fun num_neg :: "number \<Rightarrow> number" where
  "num_neg (Finite a) = Finite (- a)"
| "num_neg (Infinite s) = Infinite (\<not> s)"
| "num_neg NaN = NaN"

fun num_add :: "number \<Rightarrow> number \<Rightarrow> number" where
  "num_add (Finite a) (Finite b) = round_double (a + b)"
| "num_add (Finite a) (Infinite s) = Infinite s"
| "num_add (Infinite s) (Finite b) = Infinite s"
| "num_add (Infinite s) (Infinite s') = (if s = s' then Infinite s else NaN)"
| "num_add NaN y = NaN"
| "num_add x NaN = NaN"

definition num_sub :: "number \<Rightarrow> number \<Rightarrow> number" where
  "num_sub x y = num_add x (num_neg y)"

fun num_mul :: "number \<Rightarrow> number \<Rightarrow> number" where
  "num_mul (Finite a) (Finite b) = round_double (a * b)"
| "num_mul (Finite a) (Infinite s) = (if a = 0 then NaN else Infinite (s \<noteq> (a < 0)))"
| "num_mul (Infinite s) (Finite b) = (if b = 0 then NaN else Infinite (s \<noteq> (b < 0)))"
| "num_mul (Infinite s) (Infinite s') = Infinite (s \<noteq> s')"
| "num_mul NaN y = NaN"
| "num_mul x NaN = NaN"

text \<open>The division; a zero divisor is read as \<open>+0\<close>.\<close>

fun num_div :: "number \<Rightarrow> number \<Rightarrow> number" where
  "num_div (Finite a) (Finite b) =
     (if b = 0 then (if a = 0 then NaN else Infinite (a < 0)) else round_double (a / b))"
| "num_div (Finite a) (Infinite s) = Finite 0"
| "num_div (Infinite s) (Finite b) = Infinite (s \<noteq> (b < 0))"
| "num_div (Infinite s) (Infinite s') = NaN"
| "num_div NaN y = NaN"
| "num_div x NaN = NaN"

text \<open>\<open>x < y\<close>; every comparison with \<open>NaN\<close> is false.\<close>

fun num_less :: "number \<Rightarrow> number \<Rightarrow> bool" where
  "num_less (Finite a) (Finite b) = (a < b)"
| "num_less (Finite a) (Infinite s) = (\<not> s)"
| "num_less (Infinite s) (Finite b) = s"
| "num_less (Infinite s) (Infinite s') = (s \<and> \<not> s')"
| "num_less NaN y = False"
| "num_less x NaN = False"

text \<open>\<open>Math.max\<close> and \<open>Math.min\<close>, which are \<open>NaN\<close> when an argument is.\<close>

definition num_max :: "number \<Rightarrow> number \<Rightarrow> number" where
  "num_max x y = (if x = NaN \<or> y = NaN then NaN else if num_less x y then y else x)"

definition num_min :: "number \<Rightarrow> number \<Rightarrow> number" where
  "num_min x y = (if x = NaN \<or> y = NaN then NaN else if num_less y x then y else x)"

text \<open>The value of a decimal literal of the program, and of an integer that is read.\<close>

definition num :: "rat \<Rightarrow> number" where
  "num q = round_double q"

definition number_of :: "int option \<Rightarrow> number" where
  "number_of v = (case v of None \<Rightarrow> NaN | Some i \<Rightarrow> round_double (of_int i))"

text \<open>
  \<open>parseInt(s)\<close> on the decimal digits that \<open>(\d+)\<close> has captured: the double nearest
  to the integer that the digits denote.
\<close>

definition parseInt10 :: "string \<Rightarrow> number" where
  "parseInt10 s = round_double (of_nat (foldl (\<lambda>acc c. 10 * acc + digit_val c) 0 s))"

function string_of_nat :: "nat \<Rightarrow> string" where
  "string_of_nat n =
     (if n < 10 then [char_of (48 + n)]
      else string_of_nat (n div 10) @ [char_of (48 + n mod 10)])"
  by pat_completeness auto
termination
  by (relation "measure id") auto

definition string_of_number :: "int option \<Rightarrow> string" where
  "string_of_number v =
     (case v of
        None \<Rightarrow> ''NaN''
      | Some i \<Rightarrow> if i < 0 then CHR ''-'' # string_of_nat (nat (- i)) else string_of_nat (nat i))"

text \<open>\<open>s.slice(i, j)\<close> for \<open>0 \<le> i \<le> j\<close>.\<close>

definition slice :: "nat \<Rightarrow> nat \<Rightarrow> string \<Rightarrow> string" where
  "slice i j s = take (j - i) (drop i s)"

section \<open>Color-family matcher\<close>

definition isRgbInFamily :: "number \<Rightarrow> number \<Rightarrow> number \<Rightarrow> string \<Rightarrow> bool" where
  "isRgbInFamily r g b family =
     (let brightness = num_div (num_add (num_add r g) b) (num 3);
          mx = num_max (num_max r g) b;
          mn = num_min (num_min r g) b;
          saturation = (if mx = Finite 0 then Finite 0 else num_div (num_sub mx mn) mx)
      in if family = ''red'' then
           num_less (num 150) r \<and> num_less (num_mul g (num (3 / 2))) r
           \<and> num_less (num_mul b (num (6 / 5))) r \<and> num_less g (num 150)
         else if family = ''blue'' then
           num_less (num 150) b \<and> num_less (num_mul r (num (13 / 10))) b
           \<and> num_less (num_mul g (num (11 / 10))) b
         else if family = ''green'' then
           num_less (num 150) g \<and> num_less (num_mul r (num (6 / 5))) g
           \<and> num_less (num_mul b (num (6 / 5))) g
         else if family = ''orange'' then
           num_less (num 180) r \<and> num_less (num 80) g \<and> num_less g (num 180)
           \<and> num_less b (num 100)
         else if family = ''yellow'' then
           num_less (num 180) r \<and> num_less (num 180) g \<and> num_less b (num 120)
         else if family = ''purple'' then
           num_less (num 100) r \<and> num_less (num 100) b
           \<and> num_less g (num_mul (num_min r b) (num (4 / 5)))
         else if family = ''gray'' then
           num_less saturation (num (1 / 5)) \<and> num_less (num 50) brightness
           \<and> num_less brightness (num 220)
         else if family = ''black'' then num_less brightness (num 50)
         else if family = ''white'' then
           num_less (num 220) brightness \<and> num_less saturation (num (1 / 10))
         else False)"

text \<open>
  \<open>isColorInFamily\<close> reads the channels of a hexadecimal literal with \<open>parseInt\<close>, which
  gives \<open>NaN\<close> where there is no digit; a text of another length is of no family.
\<close>

definition isColorInFamily :: "string \<Rightarrow> string \<Rightarrow> bool" where
  "isColorInFamily hex family =
     (if length hex = 4 then
        isRgbInFamily (number_of (parseInt16 [hex ! 1, hex ! 1]))
          (number_of (parseInt16 [hex ! 2, hex ! 2]))
          (number_of (parseInt16 [hex ! 3, hex ! 3])) family
      else if length hex = 7 then
        isRgbInFamily (number_of (parseInt16 (slice 1 3 hex)))
          (number_of (parseInt16 (slice 3 5 hex)))
          (number_of (parseInt16 (slice 5 7 hex))) family
      else False)"

definition colors :: "(string \<times> string) list" where
  "colors =
     [(''red'', ''#cc0000''), (''blue'', ''#0066cc''), (''green'', ''#008800''),
      (''orange'', ''#ff6600''), (''yellow'', ''#ffcc00''), (''purple'', ''#9900cc''),
      (''gray'', ''#666666''), (''black'', ''#000000''), (''white'', ''#ffffff'')]"

text \<open>
  The tables are object literals, so a lookup also finds the members inherited from
  \<open>Object.prototype\<close>. \<open>getTargetColor\<close> looks the lower-cased name up: of the
  inherited names only \<open>constructor\<close> and \<open>__proto__\<close> are in lower case. The value is
  then a function or an object; \<open>Obj\<close> carries its conversion to a string.
\<close>

definition object_prototype_keys :: "string list" where
  "object_prototype_keys =
     [''constructor'', ''__defineGetter__'', ''__defineSetter__'', ''hasOwnProperty'',
      ''__lookupGetter__'', ''__lookupSetter__'', ''isPrototypeOf'',
      ''propertyIsEnumerable'', ''toString'', ''valueOf'', ''__proto__'',
      ''toLocaleString'']"

datatype target_color = Str string | Obj string

definition target_text :: "target_color \<Rightarrow> string" where
  "target_text t = (case t of Str s \<Rightarrow> s | Obj s \<Rightarrow> s)"

definition getTargetColor :: "string \<Rightarrow> target_color" where
  "getTargetColor colorName =
     (if take 1 colorName = ''#'' then Str colorName
      else case map_of colors (map to_lower colorName) of
          Some hex \<Rightarrow> Str hex
        | None \<Rightarrow>
            if map to_lower colorName = ''constructor''
            then Obj ''function Object() { [native code] }''
            else if map to_lower colorName = ''__proto__'' then Obj ''[object Object]''
            else Str colorName)"

text \<open>The hexadecimal literals: \<open>/#([0-9a-fA-F]{3}){1,2}\b/g\<close>.\<close>

definition match_hex :: "string \<Rightarrow> (nat \<times> unit) option" where
  "match_hex s =
     (case s of
        [] \<Rightarrow> None
      | c # h \<Rightarrow>
          if c \<noteq> CHR ''#'' then None
          else if length (take 3 h) = 3 \<and> list_all is_hex (take 3 h) then
            (if length (take 6 h) = 6 \<and> list_all is_hex (take 6 h) \<and> at_word_end (drop 6 h)
             then Some (7, ())
             else if at_word_end (drop 3 h) then Some (4, ())
             else None)
          else None)"

definition replace_hex :: "string \<Rightarrow> target_color \<Rightarrow> string \<Rightarrow> string" where
  "replace_hex findColor targetColor s =
     replace_global match_hex
       (\<lambda>caps preceding matched following.
          if isColorInFamily matched findColor then target_text targetColor else matched)
       [] s"

text \<open>
  The functional notation:
  \<open>/rgb(a?)\s*\(\s*(\d+)\s*,\s*(\d+)\s*,\s*(\d+)([^)]*)\)/gi\<close>. The classes that meet
  in the expression are disjoint, so the greedy match is the only one, but for the
  digits of the third number, which could go to the fifth group: the expression then
  fails as it does with all of them in the fourth, on a missing parenthesis.
\<close>

record rgb_caps =
  cap_a :: string
  cap_r :: string
  cap_g :: string
  cap_b :: string
  cap_rest :: string

definition expect_char :: "char \<Rightarrow> string \<Rightarrow> string option" where
  "expect_char c s = (case s of [] \<Rightarrow> None | d # cs \<Rightarrow> if d = c then Some cs else None)"

definition digits1 :: "string \<Rightarrow> (string \<times> string) option" where
  "digits1 s =
     (if takeWhile is_digit s = [] then None
      else Some (takeWhile is_digit s, dropWhile is_digit s))"

definition optional_a :: "string \<Rightarrow> string \<times> string" where
  "optional_a s =
     (case s of
        [] \<Rightarrow> ([], s)
      | c # cs \<Rightarrow> if canonicalize c = CHR ''A'' then ([c], cs) else ([], s))"

definition match_rgb :: "string \<Rightarrow> (nat \<times> rgb_caps) option" where
  "match_rgb s =
     (case strip_ci ''rgb'' s of None \<Rightarrow> None | Some s1 \<Rightarrow>
      case expect_char CHR ''('' (skip_space (snd (optional_a s1))) of None \<Rightarrow> None | Some s3 \<Rightarrow>
      case digits1 (skip_space s3) of None \<Rightarrow> None | Some (r, s4) \<Rightarrow>
      case expect_char CHR '','' (skip_space s4) of None \<Rightarrow> None | Some s5 \<Rightarrow>
      case digits1 (skip_space s5) of None \<Rightarrow> None | Some (g, s6) \<Rightarrow>
      case expect_char CHR '','' (skip_space s6) of None \<Rightarrow> None | Some s7 \<Rightarrow>
      case digits1 (skip_space s7) of None \<Rightarrow> None | Some (b, s8) \<Rightarrow>
      case expect_char CHR '')'' (dropWhile (\<lambda>c. c \<noteq> CHR '')'') s8) of None \<Rightarrow> None | Some s9 \<Rightarrow>
        Some (length s - length s9,
              \<lparr>cap_a = fst (optional_a s1), cap_r = r, cap_g = g, cap_b = b,
               cap_rest = takeWhile (\<lambda>c. c \<noteq> CHR '')'') s8\<rparr>))"

definition rgb_replacer ::
  "string \<Rightarrow> target_color \<Rightarrow> rgb_caps \<Rightarrow> string \<Rightarrow> js_error + string" where
  "rgb_replacer findColor targetColor caps matched =
     (if isRgbInFamily (parseInt10 (cap_r caps)) (parseInt10 (cap_g caps))
           (parseInt10 (cap_b caps)) findColor
      then (case targetColor of
              Obj t \<Rightarrow> Inl TypeError
            | Str t \<Rightarrow>
                if take 1 t = ''#'' then
                  (let tr = string_of_number (parseInt16 (slice 1 3 t));
                       tg = string_of_number (parseInt16 (slice 3 5 t));
                       tb = string_of_number (parseInt16 (slice 5 7 t))
                   in Inr (if cap_a caps \<noteq> []
                           then ''rgba('' @ tr @ '', '' @ tg @ '', '' @ tb @ cap_rest caps @ '')''
                           else ''rgb('' @ tr @ '', '' @ tg @ '', '' @ tb @ '')''))
                else Inr t)
      else Inr matched)"

definition replace_rgb :: "string \<Rightarrow> target_color \<Rightarrow> string \<Rightarrow> js_error + string" where
  "replace_rgb findColor targetColor s =
     replace_global_err match_rgb (rgb_replacer findColor targetColor) s"

text \<open>
  The keywords: for each keyword \<open>kw\<close> of the family, in the order of the table,
  \<open>/((?:color|background-color|border-color)\s*:\s*)kw\b/gi\<close> is replaced by the
  pattern \<open>$1\<close> followed by the target color.
\<close>

definition keyword_table :: "(string \<times> string list) list" where
  "keyword_table =
     [(''red'', [''red'', ''crimson'', ''darkred'', ''firebrick'', ''indianred'', ''maroon'']),
      (''blue'', [''blue'', ''navy'', ''darkblue'', ''royalblue'', ''steelblue'', ''dodgerblue'']),
      (''green'', [''green'', ''darkgreen'', ''forestgreen'', ''limegreen'', ''seagreen'']),
      (''orange'', [''orange'', ''darkorange'', ''coral'', ''tomato'']),
      (''yellow'', [''yellow'', ''gold'', ''khaki'']),
      (''purple'', [''purple'', ''violet'', ''magenta'', ''fuchsia'']),
      (''gray'', [''gray'', ''grey'', ''darkgray'', ''lightgray'', ''silver''])]"

definition match_after_property :: "string \<Rightarrow> string \<Rightarrow> string \<Rightarrow> (nat \<times> string) option" where
  "match_after_property kw s prop =
     (case strip_ci prop s of None \<Rightarrow> None | Some s1 \<Rightarrow>
      case expect_char CHR '':'' (skip_space s1) of None \<Rightarrow> None | Some s2 \<Rightarrow>
      case strip_ci kw (skip_space s2) of None \<Rightarrow> None | Some s3 \<Rightarrow>
        if at_word_end s3
        then Some (length s - length s3, take (length s - length (skip_space s2)) s)
        else None)"

fun first_match :: "('a \<Rightarrow> 'b option) \<Rightarrow> 'a list \<Rightarrow> 'b option" where
  "first_match f [] = None"
| "first_match f (x # xs) = (case f x of Some y \<Rightarrow> Some y | None \<Rightarrow> first_match f xs)"

definition match_keyword :: "string \<Rightarrow> string \<Rightarrow> (nat \<times> string) option" where
  "match_keyword kw s =
     first_match (match_after_property kw s) [''color'', ''background-color'', ''border-color'']"

definition replace_keyword :: "string \<Rightarrow> string \<Rightarrow> string \<Rightarrow> string" where
  "replace_keyword target kw s =
     replace_global (match_keyword kw)
       (\<lambda>group1 preceding matched following.
          getSubstitution matched preceding following [group1] (''$1'' @ target))
       [] s"

definition replace_keywords :: "string \<Rightarrow> string \<Rightarrow> string \<Rightarrow> js_error + string" where
  "replace_keywords findColor target s =
     (case map_of keyword_table findColor of
        Some kws \<Rightarrow> Inr (foldl (\<lambda>result kw. replace_keyword target kw result) s kws)
      | None \<Rightarrow> if findColor \<in> set object_prototype_keys then Inl TypeError else Inr s)"

definition replaceColorsInHtml :: "string \<Rightarrow> string \<Rightarrow> string \<Rightarrow> js_error + string" where
  "replaceColorsInHtml html findColor replaceColor =
     (let targetColor = getTargetColor replaceColor
      in case replace_rgb findColor targetColor (replace_hex findColor targetColor html) of
           Inl e \<Rightarrow> Inl e
         | Inr result \<Rightarrow> replace_keywords findColor (target_text targetColor) result)"

section \<open>Element factory\<close>

text \<open>
  \<open>crypto.randomUUID()\<close> and \<open>new Date().toISOString()\<close> read the environment. The
  model takes both as functions of the number of reads made so far, which the
  interpreter's state counts. A new object gets the first address not in use;
  \<open>heap_top\<close> is that address when \<open>applyOperations\<close> is called.
\<close>

record env =
  generateUid :: "nat \<Rightarrow> string"
  now :: "nat \<Rightarrow> string"
  heap_top :: nat

record conditional =
  cond_field :: "json option"
  cond_values :: "json option"
  cond_type :: "json option"

definition empty_config :: config where
  "empty_config = \<lparr>cfg_label = None, cfg_text = None, cfg_props = []\<rparr>"

definition set_prop :: "config \<Rightarrow> string \<Rightarrow> json \<Rightarrow> config" where
  "set_prop c k v = c\<lparr>cfg_props := obj_set (cfg_props c) k v\<rparr>"

text \<open>\<open>for (const [key, value] of Object.entries(patch)) ob[key] = value\<close>\<close>

definition assign_all :: "obj \<Rightarrow> obj \<Rightarrow> obj" where
  "assign_all ob patch = foldl (\<lambda>acc (k, v). obj_set acc k v) ob patch"

definition merge_config :: "config \<Rightarrow> config \<Rightarrow> config" where
  "merge_config c patch =
     \<lparr>cfg_label = (case cfg_label patch of None \<Rightarrow> cfg_label c | Some l \<Rightarrow> Some l),
      cfg_text = (case cfg_text patch of None \<Rightarrow> cfg_text c | Some t \<Rightarrow> Some t),
      cfg_props = assign_all (cfg_props c) (cfg_props patch)\<rparr>"

text \<open>The conditional-visibility triple, written into \<open>config\<close> where it is truthy.\<close>

definition apply_conditional :: "conditional option \<Rightarrow> config \<Rightarrow> config" where
  "apply_conditional cond c =
     (case cond of
        None \<Rightarrow> c
      | Some cd \<Rightarrow>
          (let c1 = (if truthy (cond_field cd)
                     then set_prop c ''reveal_if_attribute'' (the (cond_field cd)) else c);
               c2 = (if truthy (cond_values cd)
                     then set_prop c1 ''reveal_if_value'' (the (cond_values cd)) else c1)
           in if truthy (cond_type cd)
              then set_prop c2 ''reveal_if_type'' (the (cond_type cd)) else c2))"

definition default_visibility :: obj where
  \<open>default_visibility =
     [(''visible_form'', JBool True), (''visible_show'', JBool True),
      (''advanced_filter'', JStr ''1''),
      (''advanced_query'',
       JStr ''{"group_type":"and","conditions":[],"relationship_filter_model_type":"GrantRequest"}''),
      (''advanced_sort'', JStr ''[]'')]\<close>

definition createGroupElement ::
  "nat \<Rightarrow> string \<Rightarrow> string option \<Rightarrow> config option \<Rightarrow> obj option \<Rightarrow> obj option
     \<Rightarrow> conditional option \<Rightarrow> element" where
  "createGroupElement new_addr new_uid lbl opt_config opt_styling opt_visibility opt_conditional =
     (let c0 = \<lparr>cfg_label = lbl, cfg_text = None,
                cfg_props = [(''show_in_toc'', JStr ''0''), (''hide_label'', JStr ''0''),
                             (''collapsible'', JStr ''0''), (''default_open'', JStr ''0''),
                             (''disable_lazy_load'', JStr ''0''),
                             (''reveal_if_type'', JStr ''show'')]\<rparr>;
          c1 = (case opt_config of None \<Rightarrow> c0 | Some oc \<Rightarrow> merge_config c0 oc);
          s1 = (case opt_styling of
                  None \<Rightarrow> [(''alignment'', JStr ''left'')]
                | Some os \<Rightarrow> assign_all [(''alignment'', JStr ''left'')] os);
          v1 = (case opt_visibility of
                  None \<Rightarrow> default_visibility
                | Some ov \<Rightarrow> assign_all default_visibility ov)
      in Element new_addr (Some new_uid) (Some ''group'') (Some ''group'') lbl
           (Some (apply_conditional opt_conditional c1)) (Some s1) (Some v1) (Some []) [])"

definition createTextElement ::
  "nat \<Rightarrow> string \<Rightarrow> string option \<Rightarrow> obj option \<Rightarrow> obj option \<Rightarrow> element" where
  "createTextElement new_addr new_uid html opt_styling opt_visibility =
     (let s1 = (case opt_styling of
                  None \<Rightarrow> [(''alignment'', JStr ''left'')]
                | Some os \<Rightarrow> assign_all [(''alignment'', JStr ''left'')] os);
          v1 = (case opt_visibility of
                  None \<Rightarrow> default_visibility
                | Some ov \<Rightarrow> assign_all default_visibility ov)
      in Element new_addr (Some new_uid) (Some ''text'') (Some ''text'') None
           (Some \<lparr>cfg_label = None, cfg_text = html,
                  cfg_props = [(''strip_html'', JStr ''0''), (''allow_script'', JStr ''0'')]\<rparr>)
           (Some s1) (Some v1) None [])"

text \<open>The interpreter calls \<open>createAttributeElement\<close> without options.\<close>

definition createAttributeElement ::
  "nat \<Rightarrow> string \<Rightarrow> string option \<Rightarrow> string option \<Rightarrow> element" where
  "createAttributeElement new_addr new_uid fieldName lbl =
     Element new_addr (Some new_uid) (Some ''attribute'') fieldName lbl
       (Some \<lparr>cfg_label = lbl, cfg_text = None, cfg_props = [(''required'', JBool False)]\<rparr>)
       (Some [(''alignment'', JStr ''left'')]) (Some default_visibility) None []"

text \<open>An entry of the attribute registry; a key whose value is \<open>undefined\<close> is left out.\<close>

definition opt_entry :: "string \<Rightarrow> string option \<Rightarrow> obj" where
  "opt_entry k v = (case v of None \<Rightarrow> [] | Some s \<Rightarrow> [(k, JStr s)])"

definition createModelAttribute ::
  "string \<Rightarrow> string \<Rightarrow> string option \<Rightarrow> string option \<Rightarrow> string option \<Rightarrow> obj" where
  "createModelAttribute created updated nm description attributeType =
     [(''created_at'', JStr created), (''updated_at'', JStr updated)]
     @ opt_entry ''name'' nm
     @ opt_entry ''description'' (or_else description nm)
     @ [(''model_type'', JStr ''GrantRequest'')]
     @ opt_entry ''attribute_type'' attributeType
     @ [(''multi_allowed'', JBool False), (''deleted_at'', JNull),
        (''value_model_type'', JNull), (''include_in_export'', JBool True),
        (''include_in_fulltext_search'', JBool False), (''api_style'', JStr ''full''),
        (''force_dropdown'', JBool False), (''translatable'', JBool False),
        (''model_type_enum'', JNum 98)]"

text \<open>\<open>modelAttrs.find(a => a.name === fieldName)\<close> finds an entry.\<close>

definition has_attr :: "obj list \<Rightarrow> string option \<Rightarrow> bool" where
  "has_attr attrs fieldName =
     list_ex (\<lambda>a. obj_get a ''name'' = map_option JStr fieldName) attrs"

section \<open>Operations and the interpreter's state\<close>

text \<open>An operation is an object; each of its keys but \<open>type\<close> may be missing.\<close>

record op =
  op_type :: string
  after_uid :: "string option"
  op_uid :: "string option"
  target :: "string option"
  target_uid :: "string option"
  source_uid :: "string option"
  uids :: "string list option"
  position :: "string option"
  op_alias :: "string option"
  op_element_type :: "string option"
  op_label :: "string option"
  content :: "string option"
  field_name :: "string option"
  field_type :: "string option"
  op_config :: "config option"
  op_styling :: "obj option"
  op_visibility :: "obj option"
  op_conditional :: "conditional option"
  required :: "json option"
  read_only :: "json option"
  find_color :: "string option"
  replace_color :: "string option"
  op_find :: "string option"
  op_replace :: "string option"
  set_required :: "json option"
  set_read_only :: "json option"
  set_hidden :: "json option"
  set_collapsible :: "json option"
  set_show_in_toc :: "json option"
  set_default_open :: "json option"
  set_hide_label :: "json option"
  op_structure :: "element option"
  label_find :: "string option"
  label_replace :: "string option"
  field_suffix :: "string option"

text \<open>
  The working document (\<open>data.records.Stencil[0].json.elements\<close> and
  \<open>data.records.ModelAttribute\<close>), the alias table and the number of reads of the
  environment. \<open>st_root\<close> is the address of the working document, which stands for
  the document with its records, its top-level \<open>elements\<close> array and its registry
  array; \<open>st_alloc\<close> is the first address not in use; \<open>st_written\<close> lists, in order,
  the addresses of the objects that the operations have written to (an operation
  that reaches one of its assignments counts as writing to the object).
\<close>

record state =
  st_elements :: "element list"
  st_modelAttrs :: "obj list"
  st_aliases :: "(string \<times> string) list"
  st_tick :: nat
  st_root :: nat
  st_alloc :: nat
  st_written :: "nat list"

section \<open>Alias table\<close>

text \<open>
  \<open>aliases[key]\<close>: an alias registered in this batch, a member inherited from
  \<open>Object.prototype\<close>, or \<open>undefined\<close>. The assignment \<open>aliases['__proto__'] = uid\<close>
  of a string creates no property.
\<close>

definition aliases_get :: "(string \<times> string) list \<Rightarrow> string \<Rightarrow> ref" where
  "aliases_get aliases k =
     (case map_of aliases k of
        Some u \<Rightarrow> Ref u
      | None \<Rightarrow> if k \<in> set object_prototype_keys then Inherited else Undefined)"

definition aliases_set :: "(string \<times> string) list \<Rightarrow> string \<Rightarrow> string \<Rightarrow> (string \<times> string) list" where
  "aliases_set aliases k u = (if k = ''__proto__'' then aliases else (k, u) # aliases)"

text \<open>\<open>op.after_uid || op.uid || op.target\<close>, \<open>isRoot\<close> and the resolution of an alias.\<close>

definition raw_target :: "op \<Rightarrow> string option" where
  "raw_target op = or_else (or_else (after_uid op) (op_uid op)) (target op)"

definition isRoot :: "op \<Rightarrow> bool" where
  "isRoot op = (raw_target op = Some ''$root'')"

definition resolve_target :: "(string \<times> string) list \<Rightarrow> op \<Rightarrow> ref" where
  "resolve_target aliases op =
     (case raw_target op of
        None \<Rightarrow> Undefined
      | Some t \<Rightarrow>
          if t \<noteq> [] \<and> take 1 t = ''$'' \<and> \<not> isRoot op then aliases_get aliases (drop 1 t)
          else Ref t)"

text \<open>The destination of a move: \<open>op.target\<close>, resolved when it starts with \<open>$\<close>.\<close>

definition resolve_dest :: "(string \<times> string) list \<Rightarrow> op \<Rightarrow> ref" where
  "resolve_dest aliases op =
     (case target op of
        None \<Rightarrow> Undefined
      | Some t \<Rightarrow>
          if t \<noteq> [] \<and> take 1 t = ''$'' then aliases_get aliases (drop 1 t)
          else Ref t)"

definition ref_of :: "string option \<Rightarrow> ref" where
  "ref_of u = (case u of None \<Rightarrow> Undefined | Some s \<Rightarrow> Ref s)"

section \<open>Operation interpreter\<close>

text \<open>\<open>t.elements = t.elements || []\<close>, then \<open>push\<close> or \<open>unshift\<close>.\<close>

definition children :: "element \<Rightarrow> element list" where
  "children el = (case elements el of None \<Rightarrow> [] | Some ks \<Rightarrow> ks)"

definition push_child :: "element \<Rightarrow> element \<Rightarrow> element" where
  "push_child new t = set_elements (Some (children t @ [new])) t"

definition unshift_child :: "element \<Rightarrow> element \<Rightarrow> element" where
  "unshift_child new t = set_elements (Some (new # children t)) t"

text \<open>
  Placing an element relative to the anchor \<open>r\<close>: at the end or the start of the
  anchor's children for the positions \<open>inside\<close>, or before or after the anchor in
  the array that holds it. \<open>None\<close> when the anchor is not found.
\<close>

definition place :: "string option \<Rightarrow> ref \<Rightarrow> element \<Rightarrow> element list \<Rightarrow> element list option" where
  "place pos r new es =
     (if pos = Some ''inside'' \<or> pos = Some ''inside_end''
      then spliceByUid (\<lambda>t. [push_child new t]) r es
      else if pos = Some ''inside_start'' \<or> pos = Some ''inside_top''
      then spliceByUid (\<lambda>t. [unshift_child new t]) r es
      else spliceByUid (\<lambda>t. if pos = Some ''before'' then [new, t] else [t, new]) r es)"

text \<open>
  The objects that an operation writes to when it changes the element \<open>r\<close>, or the
  array that holds it: the element, or the parent that \<open>findParentOf\<close> returns, which
  is the document at the top level.
\<close>

definition found_addr :: "element list \<Rightarrow> ref \<Rightarrow> nat list" where
  "found_addr es r = (case findElementByUid es r of None \<Rightarrow> [] | Some el \<Rightarrow> [addr el])"

definition array_owner :: "nat \<Rightarrow> element list \<Rightarrow> ref \<Rightarrow> nat list" where
  "array_owner doc es r =
     (case findParentOf es r of
        None \<Rightarrow> []
      | Some ctx \<Rightarrow> (case ctx_parent ctx of None \<Rightarrow> [doc] | Some p \<Rightarrow> [addr p]))"

definition place_writes :: "nat \<Rightarrow> string option \<Rightarrow> ref \<Rightarrow> element list \<Rightarrow> nat list" where
  "place_writes doc pos r es =
     (if pos = Some ''inside'' \<or> pos = Some ''inside_end''
         \<or> pos = Some ''inside_start'' \<or> pos = Some ''inside_top''
      then found_addr es r
      else array_owner doc es r)"

text \<open>
  \<open>JSON.parse(JSON.stringify(el))\<close>: the same tree in new objects, allocated from
  the address \<open>free\<close> on; the second component is the first address not in use
  afterwards.
\<close>

fun deep_copy :: "element \<Rightarrow> nat \<Rightarrow> element \<times> nat"
  and deep_copy_list :: "element list \<Rightarrow> nat \<Rightarrow> element list \<times> nat" where
  "deep_copy (Element ad u ty n l c s v ks x) free =
     (case ks of
        None \<Rightarrow> (Element free u ty n l c s v None x, Suc free)
      | Some kids \<Rightarrow>
          (let (kids', free') = deep_copy_list kids (Suc free)
           in (Element free u ty n l c s v (Some kids') x, free')))"
| "deep_copy_list [] free = ([], free)"
| "deep_copy_list (k # ks) free =
     (let (k', free1) = deep_copy k free;
          (ks', free2) = deep_copy_list ks free1
      in (k' # ks', free2))"

text \<open>The addresses of the objects of a tree.\<close>

fun addresses :: "element \<Rightarrow> nat list"
  and addresses_list :: "element list \<Rightarrow> nat list" where
  "addresses (Element ad u ty n l c s v ks x) =
     ad # (case ks of None \<Rightarrow> [] | Some kids \<Rightarrow> addresses_list kids)"
| "addresses_list [] = []"
| "addresses_list (k # ks) = addresses k @ addresses_list ks"

subsection \<open>add\<close>

text \<open>
  The new element, if the element type is known, and the state after building it.
  The factories of groups and texts write the options into the object they have
  built; an attribute element is built by one object literal.
\<close>

definition new_element :: "env \<Rightarrow> op \<Rightarrow> state \<Rightarrow> element option \<times> state" where
  "new_element e op st =
     (if op_element_type op = Some ''group'' then
        (Some (createGroupElement (st_alloc st) (generateUid e (st_tick st)) (op_label op)
                 (op_config op) (op_styling op) (op_visibility op) (op_conditional op)),
         st\<lparr>st_tick := Suc (st_tick st), st_alloc := Suc (st_alloc st),
            st_written := st_written st @ [st_alloc st]\<rparr>)
      else if op_element_type op = Some ''text'' then
        (Some (createTextElement (st_alloc st) (generateUid e (st_tick st)) (content op)
                 (op_styling op) (op_visibility op)),
         st\<lparr>st_tick := Suc (st_tick st), st_alloc := Suc (st_alloc st),
            st_written := st_written st @ [st_alloc st]\<rparr>)
      else if op_element_type op = Some ''field'' then
        (let st1 =
           (if has_attr (st_modelAttrs st) (field_name op) then st
            else st\<lparr>st_modelAttrs :=
                      st_modelAttrs st
                      @ [createModelAttribute (now e (st_tick st)) (now e (Suc (st_tick st)))
                           (field_name op) (field_name op)
                           (or_else (field_type op) (Some ''string''))],
                    st_tick := Suc (Suc (st_tick st)),
                    st_written := st_written st @ [st_root st]\<rparr>)
         in (Some (createAttributeElement (st_alloc st1) (generateUid e (st_tick st1))
                     (field_name op) (op_label op)),
             st1\<lparr>st_tick := Suc (st_tick st1), st_alloc := Suc (st_alloc st1)\<rparr>))
      else (None, st))"

definition insert_added :: "op \<Rightarrow> ref \<Rightarrow> element \<Rightarrow> element list \<Rightarrow> element list" where
  "insert_added op r new es =
     (if isRoot op then
        (if position op = Some ''inside'' then es @ [new]
         else if position op = Some ''before'' then new # es
         else es @ [new])
      else case place (position op) r new es of None \<Rightarrow> es | Some es' \<Rightarrow> es')"

definition added_writes :: "op \<Rightarrow> ref \<Rightarrow> nat \<Rightarrow> element list \<Rightarrow> nat list" where
  "added_writes op r doc es =
     (if isRoot op then [doc] else place_writes doc (position op) r es)"

definition apply_add :: "env \<Rightarrow> op \<Rightarrow> state \<Rightarrow> state" where
  "apply_add e op st =
     (case new_element e op st of
        (None, st1) \<Rightarrow> st1
      | (Some new, st1) \<Rightarrow>
          st1\<lparr>st_aliases :=
                 (if truthy_str (op_alias op)
                  then aliases_set (st_aliases st1) (the (op_alias op)) (the (uid new))
                  else st_aliases st1),
              st_elements :=
                 insert_added op (resolve_target (st_aliases st) op) new (st_elements st1),
              st_written :=
                 st_written st1
                 @ added_writes op (resolve_target (st_aliases st) op) (st_root st1)
                     (st_elements st1)\<rparr>)"

subsection \<open>edit\<close>

text \<open>\<open>if (src[k] !== undefined) ob[k] = src[k]\<close> for each key of a list.\<close>

definition copy_defined :: "string list \<Rightarrow> obj \<Rightarrow> obj \<Rightarrow> obj" where
  "copy_defined ks src ob =
     foldl (\<lambda>acc k. case obj_get src k of None \<Rightarrow> acc | Some v \<Rightarrow> obj_set acc k v) ob ks"

definition set_opt_prop :: "string \<Rightarrow> json option \<Rightarrow> config \<Rightarrow> config" where
  "set_opt_prop k v c = (case v of None \<Rightarrow> c | Some w \<Rightarrow> set_prop c k w)"

definition spacingProps :: "string list" where
  "spacingProps =
     [''margin_top'', ''margin_bottom'', ''margin_left'', ''margin_right'',
      ''padding_top'', ''padding_bottom'', ''padding_left'', ''padding_right'', ''alignment'']"

definition edit_styling :: "string option \<Rightarrow> obj \<Rightarrow> obj \<Rightarrow> obj" where
  "edit_styling ty ob patch =
     foldl (\<lambda>acc (k, v). if ty \<noteq> Some ''group'' \<and> k \<notin> set spacingProps then acc
                          else obj_set acc k v) ob patch"

definition edit_element :: "op \<Rightarrow> element \<Rightarrow> element" where
  "edit_element op el =
     (let c0 = (case config el of None \<Rightarrow> empty_config | Some c \<Rightarrow> c);
          c1 = (if truthy_str (op_label op) then c0\<lparr>cfg_label := op_label op\<rparr> else c0);
          l1 = (if truthy_str (op_label op) \<and> label el \<noteq> None then op_label op else label el);
          c2 = set_opt_prop ''required'' (required op) c1;
          c3 = set_opt_prop ''read_only'' (read_only op) c2;
          c4 = (if truthy_str (content op) \<and> element_type el = Some ''text''
                then c3\<lparr>cfg_text := content op\<rparr> else c3);
          c5 = (case op_config op of
                  None \<Rightarrow> c4
                | Some oc \<Rightarrow>
                    c4\<lparr>cfg_props :=
                         copy_defined [''show_in_toc'', ''hide_label'', ''collapsible'',
                                       ''default_open'', ''open_states'']
                           (cfg_props oc) (cfg_props c4)\<rparr>);
          c6 = apply_conditional (op_conditional op) c5;
          s1 = (case op_styling op of
                  None \<Rightarrow> styling el
                | Some os \<Rightarrow>
                    Some (edit_styling (element_type el)
                            (case styling el of None \<Rightarrow> [] | Some s \<Rightarrow> s) os));
          v1 = (case op_visibility op of
                  None \<Rightarrow> visibility el
                | Some ov \<Rightarrow>
                    Some (copy_defined [''visible_form'', ''visible_show'', ''visible_list'',
                                        ''show_states'', ''read_only_states'', ''user_profile'']
                            ov (case visibility el of None \<Rightarrow> [] | Some v \<Rightarrow> v)))
      in set_visibility v1 (set_styling s1 (set_label l1 (set_config (Some c6) el))))"

definition apply_edit :: "op \<Rightarrow> state \<Rightarrow> state" where
  "apply_edit op st =
     (case spliceByUid (\<lambda>el. [edit_element op el]) (resolve_target (st_aliases st) op)
             (st_elements st) of
        None \<Rightarrow> st
      | Some es' \<Rightarrow>
          st\<lparr>st_elements := es',
             st_written :=
               st_written st
               @ found_addr (st_elements st) (resolve_target (st_aliases st) op)\<rparr>)"

subsection \<open>move\<close>

text \<open>
  The source is taken out of the array that holds it; then the destination is looked
  up in what remains, and the source is placed there if the destination is found.
\<close>

definition apply_move :: "op \<Rightarrow> state \<Rightarrow> state" where
  "apply_move op st =
     (let r = resolve_target (st_aliases st) op;
          dest = resolve_dest (st_aliases st) op
      in case findElementByUid (st_elements st) r of
           None \<Rightarrow> st
         | Some removed \<Rightarrow>
             (case spliceByUid (\<lambda>el. []) r (st_elements st) of
                None \<Rightarrow> st
              | Some es1 \<Rightarrow>
                  (let w1 = st_written st @ array_owner (st_root st) (st_elements st) r
                   in case place (position op) dest removed es1 of
                        None \<Rightarrow> st\<lparr>st_elements := es1, st_written := w1\<rparr>
                      | Some es2 \<Rightarrow>
                          st\<lparr>st_elements := es2,
                             st_written :=
                               w1 @ place_writes (st_root st) (position op) dest es1\<rparr>)))"

subsection \<open>delete\<close>

definition apply_delete :: "op \<Rightarrow> state \<Rightarrow> state" where
  "apply_delete op st =
     (case spliceByUid (\<lambda>el. []) (resolve_target (st_aliases st) op) (st_elements st) of
        None \<Rightarrow> st
      | Some es' \<Rightarrow>
          st\<lparr>st_elements := es',
             st_written :=
               st_written st
               @ array_owner (st_root st) (st_elements st)
                   (resolve_target (st_aliases st) op)\<rparr>)"

subsection \<open>bulk_replace\<close>

definition bulk_flags :: "op \<Rightarrow> element \<Rightarrow> element" where
  "bulk_flags op el =
     (let c0 = (case config el of None \<Rightarrow> empty_config | Some c \<Rightarrow> c);
          c1 = set_opt_prop ''required'' (set_required op) c0;
          c2 = set_opt_prop ''read_only'' (set_read_only op) c1;
          v1 = (case set_hidden op of
                  None \<Rightarrow> visibility el
                | Some h \<Rightarrow>
                    Some (obj_set
                            (obj_set (case visibility el of None \<Rightarrow> [] | Some v \<Rightarrow> v)
                               ''visible_form'' (JBool (\<not> truthy (Some h))))
                            ''visible_show'' (JBool (\<not> truthy (Some h)))));
          c3 = (if element_type el = Some ''group''
                then set_opt_prop ''collapsible'' (set_collapsible op) c2 else c2);
          c4 = (if element_type el = Some ''group''
                then set_opt_prop ''show_in_toc'' (set_show_in_toc op) c3 else c3);
          c5 = (if element_type el = Some ''group''
                then set_opt_prop ''default_open'' (set_default_open op) c4 else c4);
          c6 = set_opt_prop ''hide_label'' (set_hide_label op) c5
      in set_visibility v1 (set_config (Some c6) el))"

text \<open>
  The text rewrite of \<open>bulk_replace\<close> on \<open>el.config.text\<close>: the color rewrite when the
  text, \<open>find_color\<close> and \<open>replace_color\<close> are truthy, else the literal replacement
  when the text, \<open>find\<close> and \<open>replace\<close> are.
\<close>

definition bulk_text :: "op \<Rightarrow> string option \<Rightarrow> js_error + string option" where
  "bulk_text op txt =
     (if truthy_str txt \<and> truthy_str (find_color op) \<and> truthy_str (replace_color op) then
        (case replaceColorsInHtml (the txt) (the (find_color op)) (the (replace_color op)) of
           Inl e \<Rightarrow> Inl e
         | Inr t \<Rightarrow> Inr (Some t))
      else if truthy_str txt \<and> truthy_str (op_find op) \<and> truthy_str (op_replace op) then
        Inr (Some (replace_literal (the (op_find op)) (the (op_replace op)) (the txt)))
      else Inr txt)"

definition bulk_update :: "op \<Rightarrow> element \<Rightarrow> js_error + element" where
  "bulk_update op el =
     (let el1 = bulk_flags op el;
          c = (case config el1 of None \<Rightarrow> empty_config | Some c \<Rightarrow> c)
      in case bulk_text op (cfg_text c) of
           Inl e \<Rightarrow> Inl e
         | Inr t \<Rightarrow> Inr (set_config (Some (c\<lparr>cfg_text := t\<rparr>)) el1))"

text \<open>The loop over \<open>op.uids\<close>, on the elements and the list of written addresses.\<close>

fun bulk_loop ::
  "op \<Rightarrow> string list \<Rightarrow> element list \<times> nat list \<Rightarrow> js_error + element list \<times> nat list"
  where
  "bulk_loop op [] (es, w) = Inr (es, w)"
| "bulk_loop op (u # us) (es, w) =
     (case findElementByUid es (Ref u) of
        None \<Rightarrow> bulk_loop op us (es, w)
      | Some el \<Rightarrow>
          (case bulk_update op el of
             Inl e \<Rightarrow> Inl e
           | Inr el' \<Rightarrow>
               (case spliceByUid (\<lambda>x. [el']) (Ref u) es of
                  None \<Rightarrow> bulk_loop op us (es, w)
                | Some es' \<Rightarrow> bulk_loop op us (es', w @ [addr el]))))"

definition apply_bulk_replace :: "op \<Rightarrow> state \<Rightarrow> js_error + state" where
  "apply_bulk_replace op st =
     (case bulk_loop op (case uids op of None \<Rightarrow> [] | Some us \<Rightarrow> us)
             (st_elements st, st_written st) of
        Inl e \<Rightarrow> Inl e
      | Inr (es', w') \<Rightarrow> Inr (st\<lparr>st_elements := es', st_written := w'\<rparr>))"

subsection \<open>replace_subtree\<close>

fun regenerateUids :: "env \<Rightarrow> element \<Rightarrow> nat \<Rightarrow> element \<times> nat"
  and regenerateUids_list :: "env \<Rightarrow> element list \<Rightarrow> nat \<Rightarrow> element list \<times> nat" where
  "regenerateUids e (Element ad u ty n l c s v ks x) t =
     (case ks of
        None \<Rightarrow> (Element ad (Some (generateUid e t)) ty n l c s v None x, Suc t)
      | Some kids \<Rightarrow>
          (let (kids', t') = regenerateUids_list e kids (Suc t)
           in (Element ad (Some (generateUid e t)) ty n l c s v (Some kids') x, t')))"
| "regenerateUids_list e [] t = ([], t)"
| "regenerateUids_list e (k # ks) t =
     (let (k', t1) = regenerateUids e k t;
          (ks', t2) = regenerateUids_list e ks t1
      in (k' # ks', t2))"

definition apply_replace_subtree :: "env \<Rightarrow> op \<Rightarrow> state \<Rightarrow> state" where
  "apply_replace_subtree e op st =
     (case op_structure op of
        None \<Rightarrow> st
      | Some structure0 \<Rightarrow>
          (let (copy, free') = deep_copy structure0 (st_alloc st);
               (newStructure, t') = regenerateUids e copy (st_tick st);
               pos = or_else (position op) (Some ''after'');
               st1 = st\<lparr>st_tick := t', st_alloc := free',
                        st_written := st_written st @ addresses newStructure\<rparr>
           in case spliceByUid
                     (\<lambda>el. if pos = Some ''replace'' then [newStructure]
                            else if pos = Some ''before'' then [newStructure, el]
                            else [el, newStructure])
                     (ref_of (target_uid op)) (st_elements st) of
                None \<Rightarrow> st1
              | Some es' \<Rightarrow>
                  st1\<lparr>st_elements := es',
                      st_written :=
                        st_written st1
                        @ array_owner (st_root st) (st_elements st)
                            (ref_of (target_uid op))\<rparr>))"

subsection \<open>clone_subtree\<close>

definition transform_label :: "string option \<Rightarrow> string option \<Rightarrow> string option \<Rightarrow> string option" where
  "transform_label labelFind labelReplace l =
     (if truthy_str labelFind \<and> truthy_str labelReplace \<and> truthy_str l
      then Some (replace_literal (the labelFind) (the labelReplace) (the l))
      else l)"

definition transform_name :: "string \<Rightarrow> string option \<Rightarrow> string option \<Rightarrow> string option" where
  "transform_name fieldSuffix ty n =
     (if fieldSuffix \<noteq> [] \<and> ty = Some ''attribute'' \<and> truthy_str n
      then Some (the n @ fieldSuffix) else n)"

fun transformElement ::
  "env \<Rightarrow> string option \<Rightarrow> string option \<Rightarrow> string \<Rightarrow> element \<Rightarrow> nat \<Rightarrow> element \<times> nat"
  and transformElement_list ::
  "env \<Rightarrow> string option \<Rightarrow> string option \<Rightarrow> string \<Rightarrow> element list \<Rightarrow> nat \<Rightarrow> element list \<times> nat"
  where
  "transformElement e lf lr sfx (Element ad u ty n l c s v ks x) t =
     (let c' = map_option (\<lambda>cf. cf\<lparr>cfg_label := transform_label lf lr (cfg_label cf)\<rparr>) c;
          l' = transform_label lf lr l;
          n' = transform_name sfx ty n
      in case ks of
           None \<Rightarrow> (Element ad (Some (generateUid e t)) ty n' l' c' s v None x, Suc t)
         | Some kids \<Rightarrow>
             (let (kids', t') = transformElement_list e lf lr sfx kids (Suc t)
              in (Element ad (Some (generateUid e t)) ty n' l' c' s v (Some kids') x, t')))"
| "transformElement_list e lf lr sfx [] t = ([], t)"
| "transformElement_list e lf lr sfx (k # ks) t =
     (let (k', t1) = transformElement e lf lr sfx k t;
          (ks', t2) = transformElement_list e lf lr sfx ks t1
      in (k' # ks', t2))"

fun collectFieldNames :: "element \<Rightarrow> string list"
  and collectFieldNames_list :: "element list \<Rightarrow> string list" where
  "collectFieldNames (Element ad u ty n l c s v ks x) =
     (if ty = Some ''attribute'' \<and> truthy_str n then [the n] else [])
     @ (case ks of None \<Rightarrow> [] | Some kids \<Rightarrow> collectFieldNames_list kids)"
| "collectFieldNames_list [] = []"
| "collectFieldNames_list (k # ks) = collectFieldNames k @ collectFieldNames_list ks"

text \<open>
  A registry entry of type \<open>string\<close> for each collected name that has none, in the
  order of the names; the first component is the registry, the second the number of
  reads of the environment.
\<close>

fun register_names :: "env \<Rightarrow> string list \<Rightarrow> obj list \<times> nat \<Rightarrow> obj list \<times> nat" where
  "register_names e [] (attrs, t) = (attrs, t)"
| "register_names e (fieldName # rest) (attrs, t) =
     (if has_attr attrs (Some fieldName) then register_names e rest (attrs, t)
      else register_names e rest
             (attrs @ [createModelAttribute (now e t) (now e (Suc t)) (Some fieldName)
                         (Some fieldName) (Some ''string'')],
              Suc (Suc t)))"

definition apply_clone_subtree :: "env \<Rightarrow> op \<Rightarrow> state \<Rightarrow> state" where
  "apply_clone_subtree e op st =
     (let pos = or_else (position op) (Some ''after'');
          fieldSuffix = (if truthy_str (field_suffix op) then the (field_suffix op) else [])
      in case findElementByUid (st_elements st) (ref_of (source_uid op)) of
           None \<Rightarrow> st
         | Some sourceEl \<Rightarrow>
             (let (copy, free') = deep_copy sourceEl (st_alloc st);
                  (cloned, t1) =
                    transformElement e (label_find op) (label_replace op) fieldSuffix copy
                      (st_tick st);
                  (attrs, t2) =
                    (if fieldSuffix \<noteq> []
                     then register_names e (collectFieldNames cloned) (st_modelAttrs st, t1)
                     else (st_modelAttrs st, t1));
                  st1 = st\<lparr>st_modelAttrs := attrs, st_tick := t2, st_alloc := free',
                           st_written :=
                             st_written st @ addresses cloned
                             @ (if attrs \<noteq> st_modelAttrs st then [st_root st] else [])\<rparr>
              in case spliceByUid
                        (\<lambda>el. if pos = Some ''before'' then [cloned, el] else [el, cloned])
                        (ref_of (source_uid op)) (st_elements st) of
                   None \<Rightarrow> st1
                 | Some es' \<Rightarrow>
                     st1\<lparr>st_elements := es',
                         st_written :=
                           st_written st1
                           @ array_owner (st_root st) (st_elements st)
                               (ref_of (source_uid op))\<rparr>))"

subsection \<open>The batch\<close>

definition apply_operation :: "env \<Rightarrow> op \<Rightarrow> state \<Rightarrow> js_error + state" where
  "apply_operation e op st =
     (if op_type op = ''add'' then Inr (apply_add e op st)
      else if op_type op = ''edit'' then Inr (apply_edit op st)
      else if op_type op = ''move'' then Inr (apply_move op st)
      else if op_type op = ''delete'' then Inr (apply_delete op st)
      else if op_type op = ''bulk_replace'' then apply_bulk_replace op st
      else if op_type op = ''replace_subtree'' then Inr (apply_replace_subtree e op st)
      else if op_type op = ''clone_subtree'' then Inr (apply_clone_subtree e op st)
      else Inr st)"

fun run_operations :: "env \<Rightarrow> op list \<Rightarrow> state \<Rightarrow> js_error + state" where
  "run_operations e [] st = Inr st"
| "run_operations e (op # ops) st =
     (case apply_operation e op st of
        Inl err \<Rightarrow> Inl err
      | Inr st' \<Rightarrow> run_operations e ops st')"

text \<open>
  The export document: its address, the elements of the stencil, the attribute
  registry and the rest of the export, which the interpreter does not read.
\<close>

record export_data =
  doc_addr :: nat
  Stencil_elements :: "element list"
  ModelAttribute :: "obj list"
  other_records :: json

text \<open>
  \<open>const data = JSON.parse(JSON.stringify(exportData))\<close>: the working document is a
  copy of the export in new objects, the document first.
\<close>

definition initial_state :: "env \<Rightarrow> export_data \<Rightarrow> state" where
  "initial_state e exportData =
     (let (es, free') = deep_copy_list (Stencil_elements exportData) (Suc (heap_top e))
      in \<lparr>st_elements = es, st_modelAttrs = ModelAttribute exportData,
          st_aliases = [], st_tick = 0, st_root = heap_top e, st_alloc = free',
          st_written = []\<rparr>)"

definition applyOperations :: "env \<Rightarrow> export_data \<Rightarrow> op list \<Rightarrow> js_error + export_data" where
  "applyOperations e exportData operations =
     (case run_operations e operations (initial_state e exportData) of
        Inl err \<Rightarrow> Inl err
      | Inr st \<Rightarrow>
          Inr (exportData\<lparr>doc_addr := st_root st, Stencil_elements := st_elements st,
                          ModelAttribute := st_modelAttrs st\<rparr>))"


section \<open>Properties of documents and batches\<close>

text \<open>
  \<open>all_nodes P el\<close>: every element of the subtree of \<open>el\<close> satisfies \<open>P\<close>.
\<close>

fun all_nodes :: "(element \<Rightarrow> bool) \<Rightarrow> element \<Rightarrow> bool"
  and all_nodes_list :: "(element \<Rightarrow> bool) \<Rightarrow> element list \<Rightarrow> bool" where
  "all_nodes P (Element ad u ty n l c s v ks x) =
     (P (Element ad u ty n l c s v ks x)
      \<and> (case ks of None \<Rightarrow> True | Some kids \<Rightarrow> all_nodes_list P kids))"
| "all_nodes_list P [] = True"
| "all_nodes_list P (k # ks) = (all_nodes P k \<and> all_nodes_list P ks)"

text \<open>Only groups have children: an element is a group or has no child.\<close>

definition group_or_childless :: "element \<Rightarrow> bool" where
  "group_or_childless el = (element_type el = Some ''group'' \<or> children el = [])"

text \<open>
  The field name of an attribute element has an entry in the registry, by the
  interpreter's own test \<open>modelAttrs.find(a => a.name === fieldName)\<close>.
\<close>

definition registered_node :: "obj list \<Rightarrow> element \<Rightarrow> bool" where
  "registered_node attrs el =
     (element_type el = Some ''attribute'' \<longrightarrow> has_attr attrs (name el))"

definition fields_registered :: "state \<Rightarrow> bool" where
  "fields_registered st = all_nodes_list (registered_node (st_modelAttrs st)) (st_elements st)"

text \<open>
  Three kinds of predicates on elements: those that depend on the address, the type,
  the name and on whether there are children only; those among them that do not
  depend on the address; and those that an element with children keeps when its
  children are replaced.
\<close>

definition shape_pred :: "(element \<Rightarrow> bool) \<Rightarrow> bool" where
  "shape_pred P =
     (\<forall>a b. addr a = addr b \<longrightarrow> element_type a = element_type b \<longrightarrow> name a = name b
        \<longrightarrow> (children a = [] \<longleftrightarrow> children b = []) \<longrightarrow> P a = P b)"

definition address_free :: "(element \<Rightarrow> bool) \<Rightarrow> bool" where
  "address_free P =
     (\<forall>a b. element_type a = element_type b \<longrightarrow> name a = name b
        \<longrightarrow> (children a = [] \<longleftrightarrow> children b = []) \<longrightarrow> P a = P b)"

definition child_stable :: "(element \<Rightarrow> bool) \<Rightarrow> bool" where
  "child_stable P =
     (\<forall>el ks. P el \<longrightarrow> children el \<noteq> [] \<longrightarrow> P (set_elements (Some ks) el))"

definition inside_position :: "string option \<Rightarrow> bool" where
  "inside_position pos =
     (pos = Some ''inside'' \<or> pos = Some ''inside_end'' \<or> pos = Some ''inside_start''
      \<or> pos = Some ''inside_top'')"

text \<open>The anchor \<open>r\<close>, if it is found in the forest, is a group.\<close>

definition anchor_is_group :: "element list \<Rightarrow> ref \<Rightarrow> bool" where
  "anchor_is_group es r =
     (case findElementByUid es r of None \<Rightarrow> True | Some t \<Rightarrow> element_type t = Some ''group'')"

text \<open>
  An operation respects the groups in a state when it puts children under groups only:
  an \<open>add\<close> into an anchor other than the root, or a \<open>move\<close> into a destination (looked
  up once the source is detached), has a group there, and the structure of a
  \<open>replace_subtree\<close> has children under groups only.
\<close>

definition groups_respected :: "op \<Rightarrow> state \<Rightarrow> bool" where
  "groups_respected op st =
     (if op_type op = ''add'' then
        (inside_position (position op) \<and> \<not> isRoot op
           \<longrightarrow> anchor_is_group (st_elements st) (resolve_target (st_aliases st) op))
      else if op_type op = ''move'' then
        (inside_position (position op)
           \<longrightarrow> (case spliceByUid (\<lambda>el. []) (resolve_target (st_aliases st) op) (st_elements st) of
                  None \<Rightarrow> True
                | Some es1 \<Rightarrow> anchor_is_group es1 (resolve_dest (st_aliases st) op)))
      else if op_type op = ''replace_subtree'' then
        (case op_structure op of None \<Rightarrow> True | Some s \<Rightarrow> all_nodes group_or_childless s)
      else True)"

text \<open>
  The structure of a \<open>replace_subtree\<close> names registered fields only, in the registry
  as it is when the operation is applied.
\<close>

definition structure_registered :: "op \<Rightarrow> state \<Rightarrow> bool" where
  "structure_registered op st =
     (op_type op = ''replace_subtree''
        \<longrightarrow> (case op_structure op of
               None \<Rightarrow> True
             | Some s \<Rightarrow> all_nodes (registered_node (st_modelAttrs st)) s))"

text \<open>
  \<open>each_op Q e ops st\<close>: every operation of the batch satisfies \<open>Q\<close> in the state in
  which the interpreter applies it.
\<close>

fun each_op :: "(op \<Rightarrow> state \<Rightarrow> bool) \<Rightarrow> env \<Rightarrow> op list \<Rightarrow> state \<Rightarrow> bool" where
  "each_op Q e [] st = True"
| "each_op Q e (op # ops) st =
     (Q op st \<and> (case apply_operation e op st of
                    Inl err \<Rightarrow> True
                  | Inr st' \<Rightarrow> each_op Q e ops st'))"


text \<open>
  An attribute element that has a field name, as the interpreter tests it
  (\<open>el.element_type === 'attribute' && el.name\<close>).
\<close>

definition named_attribute :: "element \<Rightarrow> bool" where
  "named_attribute el = (element_type el = Some ''attribute'' \<and> truthy_str (name el))"

text \<open>
  \<open>corresponds R a b\<close>: the subtrees of \<open>a\<close> and \<open>b\<close> have the same shape, and \<open>R\<close>
  relates each element of the first to the element at the same place in the second.
\<close>

fun corresponds :: "(element \<Rightarrow> element \<Rightarrow> bool) \<Rightarrow> element \<Rightarrow> element \<Rightarrow> bool"
  and corresponds_list :: "(element \<Rightarrow> element \<Rightarrow> bool) \<Rightarrow> element list \<Rightarrow> element list \<Rightarrow> bool"
  where
  "corresponds R (Element ad u ty n l c s v ks x) b =
     (R (Element ad u ty n l c s v ks x) b
      \<and> (case (ks, elements b) of
            (None, None) \<Rightarrow> True
          | (Some kids, Some kids') \<Rightarrow> corresponds_list R kids kids'
          | _ \<Rightarrow> False))"
| "corresponds_list R [] bs = (bs = [])"
| "corresponds_list R (a # as) bs =
     (case bs of [] \<Rightarrow> False | b # bs' \<Rightarrow> corresponds R a b \<and> corresponds_list R as bs')"

text \<open>
  The clone of an element under the suffix \<open>S\<close>: the same type, and the field name of
  the source with \<open>S\<close> appended when the source is an attribute element with a field
  name, the name of the source otherwise.
\<close>

definition suffixed :: "string \<Rightarrow> element \<Rightarrow> element \<Rightarrow> bool" where
  "suffixed S a b =
     (element_type b = element_type a
      \<and> name b = (if named_attribute a then Some (the (name a) @ S) else name a))"

text \<open>The claim's reading, in which every attribute element gets the suffix.\<close>

definition suffixed_always :: "string \<Rightarrow> element \<Rightarrow> element \<Rightarrow> bool" where
  "suffixed_always S a b =
     (element_type b = element_type a
      \<and> (element_type a = Some ''attribute'' \<longrightarrow> name b = map_option (\<lambda>n. n @ S) (name a)))"


text \<open>
  The declaration context of a keyword, in the words of the regular expression: the
  letters of one of the property names \<open>color\<close>, \<open>background-color\<close>, \<open>border-color\<close> in
  any case, white space, a colon, white space, the keyword in any case, and then the
  end of a word. Nothing is asked of the text before the letters of the property name,
  which may be the end of a longer word. \<open>keyword_rewrite kw s out\<close>: \<open>out\<close> is \<open>s\<close> but
  for keywords \<open>kw\<close> that stand in such a context, each replaced by some text; the
  property name, the colon and the white space stay, and so does every other
  character. \<open>keyword_rewrites\<close> chains it along the keywords of a family.
\<close>

definition eq_ci :: "string \<Rightarrow> string \<Rightarrow> bool" where
  "eq_ci a b = (map canonicalize a = map canonicalize b)"

definition declaration_property :: "string \<Rightarrow> bool" where
  "declaration_property p =
     (eq_ci p ''color'' \<or> eq_ci p ''background-color'' \<or> eq_ci p ''border-color'')"

inductive keyword_rewrite :: "string \<Rightarrow> string \<Rightarrow> string \<Rightarrow> bool" for kw :: string where
  finished: "keyword_rewrite kw [] []"
| copy: "keyword_rewrite kw s out \<Longrightarrow> keyword_rewrite kw (c # s) (c # out)"
| rewrite:
    "declaration_property p \<Longrightarrow> list_all is_space ws1 \<Longrightarrow> list_all is_space ws2
       \<Longrightarrow> eq_ci k kw \<Longrightarrow> at_word_end post \<Longrightarrow> keyword_rewrite kw post out
       \<Longrightarrow> keyword_rewrite kw (p @ ws1 @ '':'' @ ws2 @ k @ post) (p @ ws1 @ '':'' @ ws2 @ t @ out)"

fun keyword_rewrites :: "string list \<Rightarrow> string \<Rightarrow> string \<Rightarrow> bool" where
  "keyword_rewrites [] s out = (out = s)"
| "keyword_rewrites (kw # kws) s out =
     (\<exists>mid. keyword_rewrite kw s mid \<and> keyword_rewrites kws mid out)"

section \<open>Properties of the addresses\<close>

text \<open>
  An object allocated since the call: its address is not below \<open>base\<close>, the first
  address that was free when \<open>applyOperations\<close> was called.
\<close>

definition fresh_node :: "nat \<Rightarrow> element \<Rightarrow> bool" where
  "fresh_node base el = (base \<le> addr el)"

text \<open>
  The interpreter works on objects of its own: the elements of the working document,
  the working document itself, the next object to be allocated and every object
  written to so far have been allocated since the call.
\<close>

definition works_on_copy :: "nat \<Rightarrow> state \<Rightarrow> bool" where
  "works_on_copy base st =
     (all_nodes_list (fresh_node base) (st_elements st) \<and> base \<le> st_root st
      \<and> base \<le> st_alloc st \<and> list_all (\<lambda>a. base \<le> a) (st_written st))"

text \<open>The addresses of the objects of a document: the document and its elements.\<close>

definition document_addresses :: "export_data \<Rightarrow> nat list" where
  "document_addresses d = doc_addr d # addresses_list (Stencil_elements d)"

section \<open>Properties of the color rewrite\<close>






section \<open>The text of an element\<close>

text \<open>\<open>el.config.text\<close>, which is \<open>undefined\<close> when the element has no \<open>config\<close> or no text.\<close>

definition element_text :: "element \<Rightarrow> string option" where
  "element_text el = (case config el of None \<Rightarrow> None | Some c \<Rightarrow> cfg_text c)"

section \<open>Sample documents and operations\<close>

text \<open>
  The operation with no key but \<open>type\<close>, an environment that numbers its reads and
  allocates from the address 100 on, and small elements at given addresses, for the
  runs of the interpreter on concrete batches below.
\<close>

definition empty_op :: "string \<Rightarrow> op" where
  "empty_op ty =
     \<lparr>op_type = ty, after_uid = None, op_uid = None, target = None, target_uid = None,
      source_uid = None, uids = None, position = None, op_alias = None,
      op_element_type = None, op_label = None, content = None, field_name = None,
      field_type = None, op_config = None, op_styling = None, op_visibility = None,
      op_conditional = None, required = None, read_only = None, find_color = None,
      replace_color = None, op_find = None, op_replace = None, set_required = None,
      set_read_only = None, set_hidden = None, set_collapsible = None,
      set_show_in_toc = None, set_default_open = None, set_hide_label = None,
      op_structure = None, label_find = None, label_replace = None, field_suffix = None\<rparr>"

definition counting_env :: env where
  "counting_env =
     \<lparr>generateUid = (\<lambda>n. ''uid-'' @ string_of_nat n), now = (\<lambda>n. ''time-'' @ string_of_nat n),
      heap_top = 100\<rparr>"

definition text_node :: "nat \<Rightarrow> string \<Rightarrow> string \<Rightarrow> element" where
  "text_node ad u html =
     Element ad (Some u) (Some ''text'') (Some ''text'') None
       (Some \<lparr>cfg_label = None, cfg_text = Some html, cfg_props = []\<rparr>) None None None []"

definition group_node :: "nat \<Rightarrow> string \<Rightarrow> element list \<Rightarrow> element" where
  "group_node ad u kids =
     Element ad (Some u) (Some ''group'') (Some ''group'') None None None None (Some kids) []"

definition attribute_node :: "nat \<Rightarrow> string \<Rightarrow> string \<Rightarrow> element" where
  "attribute_node ad u fieldName =
     Element ad (Some u) (Some ''attribute'') (Some fieldName) None None None None None []"

definition export_of :: "nat \<Rightarrow> element list \<Rightarrow> obj list \<Rightarrow> export_data" where
  "export_of ad es attrs =
     \<lparr>doc_addr = ad, Stencil_elements = es, ModelAttribute = attrs, other_records = JNull\<rparr>"

text \<open>
  A document with one section, which holds the field \<open>amount\<close>, and a text beside it;
  the registry has the entry of \<open>amount\<close>. Its objects are at the addresses 0 to 3.
\<close>

definition section_doc :: export_data where
  "section_doc =
     export_of 0 [group_node 1 ''g'' [attribute_node 2 ''f1'' ''amount''], text_node 3 ''x'' ''Intro'']
       [createModelAttribute ''t0'' ''t0'' (Some ''amount'') (Some ''amount'') (Some ''string'')]"


section \<open>Lemmas on the node model and the locator\<close>

lemma sel_set_uid [simp]:
  "addr (set_uid a el) = addr el"
  "element_type (set_uid a el) = element_type el" "name (set_uid a el) = name el"
  "label (set_uid a el) = label el" "config (set_uid a el) = config el"
  "styling (set_uid a el) = styling el" "visibility (set_uid a el) = visibility el"
  "elements (set_uid a el) = elements el" "extras (set_uid a el) = extras el"
  "uid (set_uid a el) = a"
  by (cases el; simp)+

lemma sel_set_name [simp]:
  "addr (set_name a el) = addr el"
  "element_type (set_name a el) = element_type el" "uid (set_name a el) = uid el"
  "label (set_name a el) = label el" "config (set_name a el) = config el"
  "styling (set_name a el) = styling el" "visibility (set_name a el) = visibility el"
  "elements (set_name a el) = elements el" "extras (set_name a el) = extras el"
  "name (set_name a el) = a"
  by (cases el; simp)+

lemma sel_set_label [simp]:
  "addr (set_label a el) = addr el"
  "element_type (set_label a el) = element_type el" "uid (set_label a el) = uid el"
  "name (set_label a el) = name el" "config (set_label a el) = config el"
  "styling (set_label a el) = styling el" "visibility (set_label a el) = visibility el"
  "elements (set_label a el) = elements el" "extras (set_label a el) = extras el"
  "label (set_label a el) = a"
  by (cases el; simp)+

lemma sel_set_config [simp]:
  "addr (set_config a el) = addr el"
  "element_type (set_config a el) = element_type el" "uid (set_config a el) = uid el"
  "name (set_config a el) = name el" "label (set_config a el) = label el"
  "styling (set_config a el) = styling el" "visibility (set_config a el) = visibility el"
  "elements (set_config a el) = elements el" "extras (set_config a el) = extras el"
  "config (set_config a el) = a"
  by (cases el; simp)+

lemma sel_set_styling [simp]:
  "addr (set_styling a el) = addr el"
  "element_type (set_styling a el) = element_type el" "uid (set_styling a el) = uid el"
  "name (set_styling a el) = name el" "label (set_styling a el) = label el"
  "config (set_styling a el) = config el" "visibility (set_styling a el) = visibility el"
  "elements (set_styling a el) = elements el" "extras (set_styling a el) = extras el"
  "styling (set_styling a el) = a"
  by (cases el; simp)+

lemma sel_set_visibility [simp]:
  "addr (set_visibility a el) = addr el"
  "element_type (set_visibility a el) = element_type el" "uid (set_visibility a el) = uid el"
  "name (set_visibility a el) = name el" "label (set_visibility a el) = label el"
  "config (set_visibility a el) = config el" "styling (set_visibility a el) = styling el"
  "elements (set_visibility a el) = elements el" "extras (set_visibility a el) = extras el"
  "visibility (set_visibility a el) = a"
  by (cases el; simp)+

lemma sel_set_elements [simp]:
  "addr (set_elements a el) = addr el"
  "element_type (set_elements a el) = element_type el" "uid (set_elements a el) = uid el"
  "name (set_elements a el) = name el" "label (set_elements a el) = label el"
  "config (set_elements a el) = config el" "styling (set_elements a el) = styling el"
  "visibility (set_elements a el) = visibility el" "extras (set_elements a el) = extras el"
  "elements (set_elements a el) = a"
  by (cases el; simp)+

lemma children_set_elements [simp]: "children (set_elements (Some ks) el) = ks"
  by (simp add: children_def)

lemma all_nodes_unfold: "all_nodes P el = (P el \<and> all_nodes_list P (children el))"
  by (cases el) (simp add: children_def split: option.splits)

lemma all_nodes_list_append [simp]:
  "all_nodes_list P (a @ b) = (all_nodes_list P a \<and> all_nodes_list P b)"
  by (induction a) auto

lemma find_splice_None: "(spliceByUid f r es = None) = (findElementByUid es r = None)"
proof (induction es r rule: findElementByUid.induct)
  case (1 r)
  show ?case by simp
next
  case (2 el rest r)
  show ?case
  proof (cases "uid_is el r")
    case True
    then show ?thesis by simp
  next
    case nomatch: False
    show ?thesis
    proof (cases "elements el")
      case None
      with nomatch 2 show ?thesis by simp
    next
      case (Some kids)
      with nomatch 2 show ?thesis
        by (cases "spliceByUid f r kids"; cases "findElementByUid kids r") simp_all
    qed
  qed
qed


lemma all_nodes_Cons_elements:
  "elements el = Some kids \<Longrightarrow> all_nodes P el = (P el \<and> all_nodes_list P kids)"
  by (cases el) simp

lemma all_nodes_no_elements:
  "elements el = None \<Longrightarrow> all_nodes P el = P el"
  by (cases el) simp

lemma find_all_nodes:
  "all_nodes_list P es \<Longrightarrow> findElementByUid es r = Some t \<Longrightarrow> all_nodes P t"
proof (induction es r rule: findElementByUid.induct)
  case (1 r)
  then show ?case by simp
next
  case (2 el rest r)
  show ?case
  proof (cases "uid_is el r")
    case True
    with "2.prems" show ?thesis by simp
  next
    case nomatch: False
    show ?thesis
    proof (cases "elements el")
      case None
      with nomatch 2 show ?thesis by simp
    next
      case (Some kids)
      have Pkids: "all_nodes_list P kids" and Prest: "all_nodes_list P rest"
        using "2.prems"(1) Some by (simp_all add: all_nodes_Cons_elements)
      show ?thesis
      proof (cases "findElementByUid kids r")
        case None
        with nomatch Some "2.prems"(2) have "findElementByUid rest r = Some t" by simp
        with "2.IH"(3)[OF nomatch Some None Prest] show ?thesis by simp
      next
        case (Some found)
        with nomatch \<open>elements el = Some kids\<close> "2.prems"(2) have "found = t" by simp
        with "2.IH"(2)[OF nomatch \<open>elements el = Some kids\<close> Pkids] Some show ?thesis by simp
      qed
    qed
  qed
qed

lemma splice_all_nodes:
  assumes "all_nodes_list P es"
    and "spliceByUid f r es = Some es'"
    and "\<And>t. findElementByUid es r = Some t \<Longrightarrow> all_nodes_list P (f t)"
    and "\<And>el ks. P el \<Longrightarrow> children el \<noteq> [] \<Longrightarrow> P (set_elements (Some ks) el)"
  shows "all_nodes_list P es'"
  using assms(1,2,3)
proof (induction f r es arbitrary: es' rule: spliceByUid.induct)
  case (1 f r)
  then show ?case by simp
next
  case (2 f r el rest)
  have Pel: "all_nodes P el" and Prest: "all_nodes_list P rest"
    using "2.prems"(1) by simp_all
  show ?case
  proof (cases "uid_is el r")
    case True
    then have "es' = f el @ rest" using "2.prems"(2) by simp
    moreover have "all_nodes_list P (f el)" using "2.prems"(3)[of el] True by simp
    ultimately show ?thesis using Prest by simp
  next
    case nomatch: False
    show ?thesis
    proof (cases "elements el")
      case None
      then obtain rest' where r': "spliceByUid f r rest = Some rest'" and es': "es' = el # rest'"
        using "2.prems"(2) nomatch by (cases "spliceByUid f r rest") simp_all
      have "\<And>t. findElementByUid rest r = Some t \<Longrightarrow> all_nodes_list P (f t)"
        using "2.prems"(3) nomatch None by simp
      from "2.IH"(1)[OF nomatch None Prest r' this] es' Pel show ?thesis by simp
    next
      case (Some kids)
      have Pnode: "P el" and Pkids: "all_nodes_list P kids"
        using Pel Some by (simp_all add: all_nodes_Cons_elements)
      show ?thesis
      proof (cases "spliceByUid f r kids")
        case None
        then have nf: "findElementByUid kids r = None" by (simp add: find_splice_None)
        obtain rest' where r': "spliceByUid f r rest = Some rest'" and es': "es' = el # rest'"
          using "2.prems"(2) nomatch Some None by (cases "spliceByUid f r rest") simp_all
        have "\<And>t. findElementByUid rest r = Some t \<Longrightarrow> all_nodes_list P (f t)"
          using "2.prems"(3) nomatch Some nf by simp
        from "2.IH"(3)[OF nomatch Some None Prest r' this] es' Pel show ?thesis by simp
      next
        case sk: (Some kids')
        have kids_ne: "kids \<noteq> []" using sk by auto
        have es': "es' = set_elements (Some kids') el # rest"
          using "2.prems"(2) nomatch Some sk by simp
        have "\<And>t. findElementByUid kids r = Some t \<Longrightarrow> all_nodes_list P (f t)"
          using "2.prems"(3) nomatch Some by simp
        from "2.IH"(2)[OF nomatch Some Pkids sk this] have k': "all_nodes_list P kids'" .
        have "P (set_elements (Some kids') el)"
          using assms(4)[OF Pnode] kids_ne Some by (simp add: children_def)
        then have "all_nodes P (set_elements (Some kids') el)"
          using k' by (simp add: all_nodes_Cons_elements[of _ kids'])
        then show ?thesis using es' Prest by simp
      qed
    qed
  qed
qed

section \<open>Preservation of node properties by the operations\<close>

lemma shape_predD:
  "shape_pred P \<Longrightarrow> addr a = addr b \<Longrightarrow> element_type a = element_type b \<Longrightarrow> name a = name b
     \<Longrightarrow> (children a = [] \<longleftrightarrow> children b = []) \<Longrightarrow> P a = P b"
  unfolding shape_pred_def by blast

lemma all_nodes_same_shape:
  assumes "shape_pred P" "addr a = addr b" "element_type a = element_type b" "name a = name b"
    "elements a = elements b"
  shows "all_nodes P a = all_nodes P b"
proof -
  have "children a = children b" using assms(5) by (simp add: children_def)
  moreover from this have "P a = P b" using shape_predD[OF assms(1,2,3,4)] by simp
  ultimately show ?thesis by (simp add: all_nodes_unfold[of P a] all_nodes_unfold[of P b])
qed

lemma splice_all_nodes':
  assumes "child_stable P" "all_nodes_list P es" "spliceByUid f r es = Some es'"
    and "\<And>t. findElementByUid es r = Some t \<Longrightarrow> all_nodes P t \<Longrightarrow> all_nodes_list P (f t)"
  shows "all_nodes_list P es'"
proof (rule splice_all_nodes[OF assms(2,3)])
  fix t assume "findElementByUid es r = Some t"
  then show "all_nodes_list P (f t)" using assms(4) find_all_nodes[OF assms(2)] by blast
next
  fix el ks assume "P el" "children el \<noteq> []"
  then show "P (set_elements (Some ks) el)" using assms(1) unfolding child_stable_def by blast
qed

lemma splice_remove_all_nodes:
  "child_stable P \<Longrightarrow> all_nodes_list P es \<Longrightarrow> spliceByUid (\<lambda>el. []) r es = Some es'
     \<Longrightarrow> all_nodes_list P es'"
  by (rule splice_all_nodes'[where f="\<lambda>el. []" and r=r and es=es]) simp_all

lemma all_nodes_set_elements:
  "all_nodes P (set_elements (Some ks) t) = (P (set_elements (Some ks) t) \<and> all_nodes_list P ks)"
  by (simp add: all_nodes_Cons_elements[of _ ks])

lemma edit_element_shape [simp]:
  "addr (edit_element op el) = addr el"
  "element_type (edit_element op el) = element_type el"
  "name (edit_element op el) = name el"
  "elements (edit_element op el) = elements el"
  by (simp_all add: edit_element_def Let_def)

lemma apply_edit_all_nodes:
  assumes "shape_pred P" "child_stable P" "all_nodes_list P (st_elements st)"
  shows "all_nodes_list P (st_elements (apply_edit op st))"
proof (cases "spliceByUid (\<lambda>el. [edit_element op el]) (resolve_target (st_aliases st) op) (st_elements st)")
  case None
  then show ?thesis using assms(3) by (simp add: apply_edit_def)
next
  case (Some es')
  have "all_nodes_list P es'"
  proof (rule splice_all_nodes'[OF assms(2,3) Some])
    fix t assume "all_nodes P t"
    then show "all_nodes_list P [edit_element op t]"
      using all_nodes_same_shape[OF assms(1), of "edit_element op t" t] by simp
  qed
  then show ?thesis using Some by (simp add: apply_edit_def)
qed

lemma apply_delete_all_nodes:
  assumes "child_stable P" "all_nodes_list P (st_elements st)"
  shows "all_nodes_list P (st_elements (apply_delete op st))"
  using assms splice_remove_all_nodes[OF assms]
  by (auto simp: apply_delete_def split: option.splits)

lemma bulk_flags_shape [simp]:
  "addr (bulk_flags op el) = addr el"
  "element_type (bulk_flags op el) = element_type el"
  "name (bulk_flags op el) = name el"
  "elements (bulk_flags op el) = elements el"
  by (simp_all add: bulk_flags_def Let_def)

lemma bulk_update_shape:
  assumes "bulk_update op el = Inr el'"
  shows "addr el' = addr el" "element_type el' = element_type el" "name el' = name el"
    "elements el' = elements el"
  using assms by (auto simp: bulk_update_def Let_def split: sum.splits)

lemma bulk_loop_all_nodes:
  assumes "shape_pred P" "child_stable P"
  shows "all_nodes_list P es \<Longrightarrow> bulk_loop op us (es, w) = Inr (es', w')
           \<Longrightarrow> all_nodes_list P es'"
proof (induction us arbitrary: es w)
  case Nil
  then show ?case by simp
next
  case (Cons u us)
  show ?case
  proof (cases "findElementByUid es (Ref u)")
    case None
    with Cons show ?thesis by simp
  next
    case (Some el)
    show ?thesis
    proof (cases "bulk_update op el")
      case (Inl e)
      with Some Cons.prems show ?thesis by simp
    next
      case (Inr el')
      show ?thesis
      proof (cases "spliceByUid (\<lambda>x. [el']) (Ref u) es")
        case None
        with Some Inr Cons show ?thesis by simp
      next
        case sp: (Some es1)
        have "all_nodes_list P es1"
        proof (rule splice_all_nodes'[OF assms(2) Cons.prems(1) sp])
          fix t assume "findElementByUid es (Ref u) = Some t" "all_nodes P t"
          then have "all_nodes P el" using Some by simp
          then show "all_nodes_list P [el']"
            using all_nodes_same_shape[OF assms(1), of el' el] bulk_update_shape[OF Inr] by simp
        qed
        with Cons.IH[of es1 "w @ [addr el]"] Cons.prems(2) Some Inr sp show ?thesis by simp
      qed
    qed
  qed
qed

lemma apply_bulk_replace_all_nodes:
  assumes "shape_pred P" "child_stable P" "all_nodes_list P (st_elements st)"
    "apply_bulk_replace op st = Inr st'"
  shows "all_nodes_list P (st_elements st')"
  using assms(4) bulk_loop_all_nodes[OF assms(1,2,3)]
  by (auto simp: apply_bulk_replace_def split: sum.splits)

lemma place_all_nodes:
  assumes "child_stable P" "all_nodes_list P es" "all_nodes P new" "place pos r new es = Some es'"
    and "\<And>t ks. inside_position pos \<Longrightarrow> findElementByUid es r = Some t \<Longrightarrow> P t
            \<Longrightarrow> ks \<noteq> [] \<Longrightarrow> P (set_elements (Some ks) t)"
  shows "all_nodes_list P es'"
proof -
  consider (push) "pos = Some ''inside'' \<or> pos = Some ''inside_end''"
    | (unshift) "\<not> (pos = Some ''inside'' \<or> pos = Some ''inside_end'')"
        "pos = Some ''inside_start'' \<or> pos = Some ''inside_top''"
    | (beside) "\<not> inside_position pos"
    unfolding inside_position_def by blast
  then show ?thesis
  proof cases
    case push
    then have sp: "spliceByUid (\<lambda>t. [push_child new t]) r es = Some es'"
      using assms(4) by (simp add: place_def)
    have ip: "inside_position pos" using push by (auto simp: inside_position_def)
    show ?thesis
    proof (rule splice_all_nodes'[OF assms(1,2) sp])
      fix t assume f: "findElementByUid es r = Some t" and a: "all_nodes P t"
      then have "P t" "all_nodes_list P (children t)" by (simp_all add: all_nodes_unfold[of P t])
      moreover have "P (push_child new t)"
        using assms(5)[OF ip f \<open>P t\<close>, of "children t @ [new]"] by (simp add: push_child_def)
      ultimately show "all_nodes_list P [push_child new t]"
        using assms(3) by (simp add: all_nodes_set_elements push_child_def)
    qed
  next
    case unshift
    then have sp: "spliceByUid (\<lambda>t. [unshift_child new t]) r es = Some es'"
      using assms(4) by (simp add: place_def)
    have ip: "inside_position pos" using unshift by (auto simp: inside_position_def)
    show ?thesis
    proof (rule splice_all_nodes'[OF assms(1,2) sp])
      fix t assume f: "findElementByUid es r = Some t" and a: "all_nodes P t"
      then have "P t" "all_nodes_list P (children t)" by (simp_all add: all_nodes_unfold[of P t])
      moreover have "P (unshift_child new t)"
        using assms(5)[OF ip f \<open>P t\<close>, of "new # children t"] by (simp add: unshift_child_def)
      ultimately show "all_nodes_list P [unshift_child new t]"
        using assms(3) by (simp add: all_nodes_set_elements unshift_child_def)
    qed
  next
    case beside
    then have sp: "spliceByUid (\<lambda>t. if pos = Some ''before'' then [new, t] else [t, new]) r es = Some es'"
      using assms(4) by (simp add: place_def inside_position_def)
    show ?thesis
    proof (rule splice_all_nodes'[OF assms(1,2) sp])
      fix t assume "all_nodes P t"
      then show "all_nodes_list P (if pos = Some ''before'' then [new, t] else [t, new])"
        using assms(3) by simp
    qed
  qed
qed

lemma apply_move_all_nodes:
  assumes "child_stable P" "all_nodes_list P (st_elements st)"
    and "\<And>removed es1 t ks. inside_position (position op)
            \<Longrightarrow> findElementByUid (st_elements st) (resolve_target (st_aliases st) op) = Some removed
            \<Longrightarrow> spliceByUid (\<lambda>el. []) (resolve_target (st_aliases st) op) (st_elements st) = Some es1
            \<Longrightarrow> findElementByUid es1 (resolve_dest (st_aliases st) op) = Some t \<Longrightarrow> P t
            \<Longrightarrow> ks \<noteq> [] \<Longrightarrow> P (set_elements (Some ks) t)"
  shows "all_nodes_list P (st_elements (apply_move op st))"
proof (cases "findElementByUid (st_elements st) (resolve_target (st_aliases st) op)")
  case None
  then show ?thesis using assms(2) by (simp add: apply_move_def)
next
  case (Some removed)
  have rem: "all_nodes P removed" using find_all_nodes[OF assms(2) Some] .
  show ?thesis
  proof (cases "spliceByUid (\<lambda>el. []) (resolve_target (st_aliases st) op) (st_elements st)")
    case None
    then show ?thesis using assms(2) Some by (simp add: apply_move_def)
  next
    case sp: (Some es1)
    have es1: "all_nodes_list P es1" using splice_remove_all_nodes[OF assms(1,2) sp] .
    show ?thesis
    proof (cases "place (position op) (resolve_dest (st_aliases st) op) removed es1")
      case None
      then show ?thesis using Some sp es1 by (simp add: apply_move_def)
    next
      case pl: (Some es2)
      have "all_nodes_list P es2"
        by (rule place_all_nodes[OF assms(1) es1 rem pl]) (rule assms(3)[OF _ Some sp])
      then show ?thesis using Some sp pl by (simp add: apply_move_def)
    qed
  qed
qed

lemma group_or_childless_shape: "shape_pred group_or_childless"
  by (auto simp: shape_pred_def group_or_childless_def)

lemma group_or_childless_stable: "child_stable group_or_childless"
  by (auto simp: child_stable_def group_or_childless_def)

lemma registered_node_shape: "shape_pred (registered_node attrs)"
  by (auto simp: shape_pred_def registered_node_def)

lemma registered_node_stable: "child_stable (registered_node attrs)"
  by (auto simp: child_stable_def registered_node_def)

lemma group_or_childless_address_free: "address_free group_or_childless"
  by (auto simp: address_free_def group_or_childless_def)

lemma registered_node_address_free: "address_free (registered_node attrs)"
  by (auto simp: address_free_def registered_node_def)

lemma address_freeD:
  "address_free P \<Longrightarrow> element_type a = element_type b \<Longrightarrow> name a = name b
     \<Longrightarrow> (children a = [] \<longleftrightarrow> children b = []) \<Longrightarrow> P a = P b"
  unfolding address_free_def by blast

lemma deep_copy_list_empty:
  "(fst (deep_copy_list ks free) = []) = (ks = [])"
  by (cases ks) (simp_all add: split_beta Let_def)

lemma deep_copy_all_nodes:
  assumes "address_free P"
  shows "all_nodes P (fst (deep_copy el free)) = all_nodes P el"
    and "all_nodes_list P (fst (deep_copy_list es free)) = all_nodes_list P es"
proof (induction el free and es free rule: deep_copy_deep_copy_list.induct)
  case (1 ad u ty n l c s v ks x free)
  show ?case
  proof (cases ks)
    case None
    have "P (Element free u ty n l c s v None x) = P (Element ad u ty n l c s v None x)"
      by (rule address_freeD[OF assms]) (simp_all add: children_def)
    with None show ?thesis by simp
  next
    case (Some kids)
    have "P (Element free u ty n l c s v (Some (fst (deep_copy_list kids (Suc free)))) x)
          = P (Element ad u ty n l c s v (Some kids) x)"
      by (rule address_freeD[OF assms]) (simp_all add: children_def deep_copy_list_empty)
    with Some 1 show ?thesis by (simp add: split_beta)
  qed
next
  case (2 free)
  show ?case by simp
next
  case (3 k ks free)
  from 3(1) 3(2)[OF refl prod.collapse] show ?case by (simp add: split_beta)
qed

lemma regenerateUids_list_empty:
  "(fst (regenerateUids_list e ks t) = []) = (ks = [])"
  by (cases ks) (simp_all add: split_beta Let_def)

lemma regenerateUids_all_nodes:
  assumes "shape_pred P"
  shows "all_nodes P (fst (regenerateUids e el t)) = all_nodes P el"
    and "all_nodes_list P (fst (regenerateUids_list e es t)) = all_nodes_list P es"
proof (induction e el t and e es t rule: regenerateUids_regenerateUids_list.induct)
  case (1 e ad u ty n l c s v ks x t)
  show ?case
  proof (cases ks)
    case None
    have "P (Element ad (Some (generateUid e t)) ty n l c s v None x) = P (Element ad u ty n l c s v None x)"
      by (rule shape_predD[OF assms]) (simp_all add: children_def)
    with None show ?thesis by simp
  next
    case (Some kids)
    have "P (Element ad (Some (generateUid e t)) ty n l c s v
               (Some (fst (regenerateUids_list e kids (Suc t)))) x)
          = P (Element ad u ty n l c s v (Some kids) x)"
      by (rule shape_predD[OF assms]) (simp_all add: children_def regenerateUids_list_empty)
    with Some 1 show ?thesis by (simp add: split_beta)
  qed
next
  case (2 e t)
  show ?case by simp
next
  case (3 e k ks t)
  from 3(1) 3(2)[OF refl prod.collapse] show ?case by (simp add: split_beta)
qed

lemma transformElement_list_empty:
  "(fst (transformElement_list e lf lr sfx ks t) = []) = (ks = [])"
  by (cases ks) (simp_all add: split_beta Let_def)

lemma transformElement_groups:
  "all_nodes group_or_childless (fst (transformElement e lf lr sfx el t))
     = all_nodes group_or_childless el"
  "all_nodes_list group_or_childless (fst (transformElement_list e lf lr sfx es t))
     = all_nodes_list group_or_childless es"
proof (induction e lf lr sfx el t and e lf lr sfx es t
       rule: transformElement_transformElement_list.induct)
  case (1 e lf lr sfx ad u ty n l c s v ks x t)
  show ?case
  proof (cases ks)
    case None
    then show ?thesis by (simp add: group_or_childless_def children_def)
  next
    case (Some kids)
    with 1 show ?thesis
      by (simp add: split_beta group_or_childless_def children_def transformElement_list_empty)
  qed
next
  case (2 e lf lr sfx t)
  show ?case by simp
next
  case (3 e lf lr sfx k ks t)
  from 3(1) 3(2)[OF refl prod.collapse] show ?case by (simp add: split_beta)
qed

lemma new_element_elements:
  "new_element e op st = (nw, st1) \<Longrightarrow> st_elements st1 = st_elements st"
  by (auto simp: new_element_def Let_def split: if_splits)

lemma new_element_groups:
  "new_element e op st = (Some new, st1) \<Longrightarrow> all_nodes group_or_childless new"
  by (auto simp: new_element_def Let_def createGroupElement_def createTextElement_def
      createAttributeElement_def group_or_childless_def children_def split: if_splits)

lemma apply_add_elements:
  "st_elements (apply_add e op st) =
     (case fst (new_element e op st) of
        None \<Rightarrow> st_elements st
      | Some new \<Rightarrow> insert_added op (resolve_target (st_aliases st) op) new (st_elements st))"
proof (cases "new_element e op st")
  case (Pair nw st1)
  with new_element_elements[OF Pair] show ?thesis
    by (cases nw) (simp_all add: apply_add_def)
qed

lemma insert_added_all_nodes:
  assumes "child_stable P" "all_nodes_list P es" "all_nodes P new"
    and "\<And>t ks. inside_position (position op) \<Longrightarrow> \<not> isRoot op \<Longrightarrow> findElementByUid es r = Some t
            \<Longrightarrow> P t \<Longrightarrow> ks \<noteq> [] \<Longrightarrow> P (set_elements (Some ks) t)"
  shows "all_nodes_list P (insert_added op r new es)"
proof (cases "isRoot op")
  case True
  then show ?thesis using assms(2,3) by (simp add: insert_added_def)
next
  case False
  show ?thesis
  proof (cases "place (position op) r new es")
    case None
    then show ?thesis using False assms(2) by (simp add: insert_added_def)
  next
    case (Some es')
    have "all_nodes_list P es'"
      by (rule place_all_nodes[OF assms(1,2,3) Some]) (rule assms(4)[OF _ False])
    then show ?thesis using False Some by (simp add: insert_added_def)
  qed
qed

lemma group_gets_children:
  "element_type t = Some ''group'' \<Longrightarrow> group_or_childless (set_elements (Some ks) t)"
  by (simp add: group_or_childless_def)

lemma apply_add_groups:
  assumes "all_nodes_list group_or_childless (st_elements st)"
    and "inside_position (position op) \<and> \<not> isRoot op
           \<longrightarrow> anchor_is_group (st_elements st) (resolve_target (st_aliases st) op)"
  shows "all_nodes_list group_or_childless (st_elements (apply_add e op st))"
proof (cases "new_element e op st")
  case (Pair nw st1)
  show ?thesis
  proof (cases nw)
    case None
    with Pair assms(1) show ?thesis by (simp add: apply_add_elements)
  next
    case (Some new)
    have "all_nodes_list group_or_childless
            (insert_added op (resolve_target (st_aliases st) op) new (st_elements st))"
    proof (rule insert_added_all_nodes[OF group_or_childless_stable assms(1)])
      show "all_nodes group_or_childless new" using new_element_groups Pair Some by blast
    next
      fix t ks
      assume "inside_position (position op)" "\<not> isRoot op"
        "findElementByUid (st_elements st) (resolve_target (st_aliases st) op) = Some t"
      then have "element_type t = Some ''group''"
        using assms(2) by (simp add: anchor_is_group_def)
      then show "group_or_childless (set_elements (Some ks) t)" by (rule group_gets_children)
    qed
    with Pair Some show ?thesis by (simp add: apply_add_elements)
  qed
qed

lemma apply_move_groups:
  assumes "all_nodes_list group_or_childless (st_elements st)"
    and "inside_position (position op)
           \<longrightarrow> (case spliceByUid (\<lambda>el. []) (resolve_target (st_aliases st) op) (st_elements st) of
                  None \<Rightarrow> True
                | Some es1 \<Rightarrow> anchor_is_group es1 (resolve_dest (st_aliases st) op))"
  shows "all_nodes_list group_or_childless (st_elements (apply_move op st))"
proof (rule apply_move_all_nodes[OF group_or_childless_stable assms(1)])
  fix removed es1 t ks
  assume "inside_position (position op)"
    "spliceByUid (\<lambda>el. []) (resolve_target (st_aliases st) op) (st_elements st) = Some es1"
    "findElementByUid es1 (resolve_dest (st_aliases st) op) = Some t"
  then have "element_type t = Some ''group''"
    using assms(2) by (simp add: anchor_is_group_def)
  then show "group_or_childless (set_elements (Some ks) t)" by (rule group_gets_children)
qed

lemma apply_replace_subtree_elements:
  "st_elements (apply_replace_subtree e op st) =
     (case op_structure op of
        None \<Rightarrow> st_elements st
      | Some s0 \<Rightarrow>
          (case spliceByUid
                  (\<lambda>el. if or_else (position op) (Some ''after'') = Some ''replace''
                         then [fst (regenerateUids e (fst (deep_copy s0 (st_alloc st))) (st_tick st))]
                         else if or_else (position op) (Some ''after'') = Some ''before''
                         then [fst (regenerateUids e (fst (deep_copy s0 (st_alloc st))) (st_tick st)), el]
                         else [el, fst (regenerateUids e (fst (deep_copy s0 (st_alloc st))) (st_tick st))])
                  (ref_of (target_uid op)) (st_elements st) of
             None \<Rightarrow> st_elements st
           | Some es' \<Rightarrow> es'))"
  by (simp add: apply_replace_subtree_def Let_def split_beta split: option.splits)

lemma apply_replace_subtree_all_nodes:
  assumes "shape_pred P" "child_stable P" "all_nodes_list P (st_elements st)"
    and "\<And>s. op_structure op = Some s \<Longrightarrow> all_nodes P (fst (deep_copy s (st_alloc st)))"
  shows "all_nodes_list P (st_elements (apply_replace_subtree e op st))"
proof (cases "op_structure op")
  case None
  then show ?thesis using assms(3) by (simp add: apply_replace_subtree_elements)
next
  case (Some s0)
  let ?new = "fst (regenerateUids e (fst (deep_copy s0 (st_alloc st))) (st_tick st))"
  let ?f = "\<lambda>el. if or_else (position op) (Some ''after'') = Some ''replace'' then [?new]
                  else if or_else (position op) (Some ''after'') = Some ''before''
                  then [?new, el] else [el, ?new]"
  have new: "all_nodes P ?new"
    using regenerateUids_all_nodes(1)[OF assms(1)] assms(4)[OF Some] by simp
  show ?thesis
  proof (cases "spliceByUid ?f (ref_of (target_uid op)) (st_elements st)")
    case None
    then show ?thesis using Some assms(3) by (simp add: apply_replace_subtree_elements)
  next
    case sp: (Some es')
    have "all_nodes_list P es'"
    proof (rule splice_all_nodes'[OF assms(2,3) sp])
      fix t assume "all_nodes P t"
      then show "all_nodes_list P (?f t)" using new by simp
    qed
    then show ?thesis using Some sp by (simp add: apply_replace_subtree_elements)
  qed
qed

lemma apply_clone_subtree_elements:
  "st_elements (apply_clone_subtree e op st) =
     (case findElementByUid (st_elements st) (ref_of (source_uid op)) of
        None \<Rightarrow> st_elements st
      | Some sourceEl \<Rightarrow>
          (case spliceByUid
                  (\<lambda>el. if or_else (position op) (Some ''after'') = Some ''before''
                         then [fst (transformElement e (label_find op) (label_replace op)
                                      (if truthy_str (field_suffix op) then the (field_suffix op) else [])
                                      (fst (deep_copy sourceEl (st_alloc st))) (st_tick st)), el]
                         else [el, fst (transformElement e (label_find op) (label_replace op)
                                      (if truthy_str (field_suffix op) then the (field_suffix op) else [])
                                      (fst (deep_copy sourceEl (st_alloc st))) (st_tick st))])
                  (ref_of (source_uid op)) (st_elements st) of
             None \<Rightarrow> st_elements st
           | Some es' \<Rightarrow> es'))"
  by (simp add: apply_clone_subtree_def Let_def split_beta split: option.splits)

lemma apply_clone_subtree_groups:
  assumes "all_nodes_list group_or_childless (st_elements st)"
  shows "all_nodes_list group_or_childless (st_elements (apply_clone_subtree e op st))"
proof (cases "findElementByUid (st_elements st) (ref_of (source_uid op))")
  case None
  then show ?thesis using assms by (simp add: apply_clone_subtree_elements)
next
  case (Some sourceEl)
  let ?cloned = "fst (transformElement e (label_find op) (label_replace op)
      (if truthy_str (field_suffix op) then the (field_suffix op) else []) (fst (deep_copy sourceEl (st_alloc st))) (st_tick st))"
  let ?f = "\<lambda>el. if or_else (position op) (Some ''after'') = Some ''before''
                  then [?cloned, el] else [el, ?cloned]"
  have cl: "all_nodes group_or_childless ?cloned"
    using find_all_nodes[OF assms Some]
    by (simp add: transformElement_groups deep_copy_all_nodes[OF group_or_childless_address_free])
  show ?thesis
  proof (cases "spliceByUid ?f (ref_of (source_uid op)) (st_elements st)")
    case None
    then show ?thesis using Some assms by (simp add: apply_clone_subtree_elements)
  next
    case sp: (Some es')
    have "all_nodes_list group_or_childless es'"
    proof (rule splice_all_nodes'[OF group_or_childless_stable assms sp])
      fix t assume "all_nodes group_or_childless t"
      then show "all_nodes_list group_or_childless (?f t)" using cl by simp
    qed
    then show ?thesis using Some sp by (simp add: apply_clone_subtree_elements)
  qed
qed

lemma apply_operation_groups:
  assumes "all_nodes_list group_or_childless (st_elements st)"
    and "groups_respected op st"
    and "apply_operation e op st = Inr st'"
  shows "all_nodes_list group_or_childless (st_elements st')"
proof -
  consider (add) "op_type op = ''add''" | (edit) "op_type op = ''edit''"
    | (move) "op_type op = ''move''" | (delete) "op_type op = ''delete''"
    | (bulk) "op_type op = ''bulk_replace''" | (replace) "op_type op = ''replace_subtree''"
    | (clone) "op_type op = ''clone_subtree''"
    | (other) "op_type op \<notin> {''add'', ''edit'', ''move'', ''delete'', ''bulk_replace'',
                                ''replace_subtree'', ''clone_subtree''}"
    by blast
  then show ?thesis
  proof cases
    case add
    then have "st' = apply_add e op st" using assms(3) by (simp add: apply_operation_def)
    moreover have "inside_position (position op) \<and> \<not> isRoot op
           \<longrightarrow> anchor_is_group (st_elements st) (resolve_target (st_aliases st) op)"
      using assms(2) add by (simp add: groups_respected_def)
    ultimately show ?thesis using apply_add_groups[OF assms(1)] by simp
  next
    case edit
    then have "st' = apply_edit op st" using assms(3) by (simp add: apply_operation_def)
    then show ?thesis
      using apply_edit_all_nodes[OF group_or_childless_shape group_or_childless_stable assms(1)]
      by simp
  next
    case move
    then have "st' = apply_move op st" using assms(3) by (simp add: apply_operation_def)
    moreover have "inside_position (position op)
           \<longrightarrow> (case spliceByUid (\<lambda>el. []) (resolve_target (st_aliases st) op) (st_elements st) of
                  None \<Rightarrow> True
                | Some es1 \<Rightarrow> anchor_is_group es1 (resolve_dest (st_aliases st) op))"
      using assms(2) move by (simp add: groups_respected_def)
    ultimately show ?thesis using apply_move_groups[OF assms(1)] by simp
  next
    case delete
    then have "st' = apply_delete op st" using assms(3) by (simp add: apply_operation_def)
    then show ?thesis
      using apply_delete_all_nodes[OF group_or_childless_stable assms(1)] by simp
  next
    case bulk
    then have "apply_bulk_replace op st = Inr st'" using assms(3) by (simp add: apply_operation_def)
    then show ?thesis
      using apply_bulk_replace_all_nodes[OF group_or_childless_shape group_or_childless_stable assms(1)]
      by simp
  next
    case replace
    then have "st' = apply_replace_subtree e op st"
      using assms(3) by (simp add: apply_operation_def)
    moreover have "\<And>s. op_structure op = Some s
        \<Longrightarrow> all_nodes group_or_childless (fst (deep_copy s (st_alloc st)))"
      using assms(2) replace
      by (simp add: groups_respected_def deep_copy_all_nodes[OF group_or_childless_address_free])
    ultimately show ?thesis
      using apply_replace_subtree_all_nodes[OF group_or_childless_shape group_or_childless_stable
          assms(1)] by simp
  next
    case clone
    then have "st' = apply_clone_subtree e op st"
      using assms(3) by (simp add: apply_operation_def)
    then show ?thesis using apply_clone_subtree_groups[OF assms(1)] by simp
  next
    case other
    then have "st' = st" using assms(3) by (simp add: apply_operation_def)
    then show ?thesis using assms(1) by simp
  qed
qed

lemma all_nodes_mono:
  "(\<And>el. P el \<Longrightarrow> Q el) \<Longrightarrow> all_nodes P el \<Longrightarrow> all_nodes Q el"
  "(\<And>el. P el \<Longrightarrow> Q el) \<Longrightarrow> all_nodes_list P es \<Longrightarrow> all_nodes_list Q es"
proof (induction P el and P es rule: all_nodes_all_nodes_list.induct)
  case (1 P ad u ty n l c s v ks x)
  then show ?case by (cases ks) auto
next
  case (2 P)
  show ?case by simp
next
  case (3 P k ks)
  then show ?case by simp
qed

lemma has_attr_append: "has_attr attrs n \<Longrightarrow> has_attr (attrs @ extra) n"
  by (auto simp: has_attr_def list_ex_iff)

lemma registered_append:
  "all_nodes_list (registered_node attrs) es \<Longrightarrow> all_nodes_list (registered_node (attrs @ extra)) es"
  by (rule all_nodes_mono(2)[of "registered_node attrs"]) (auto simp: registered_node_def has_attr_append)

lemma registered_append1:
  "all_nodes (registered_node attrs) el \<Longrightarrow> all_nodes (registered_node (attrs @ extra)) el"
  by (rule all_nodes_mono(1)[of "registered_node attrs"]) (auto simp: registered_node_def has_attr_append)

lemma createModelAttribute_name:
  "obj_get (createModelAttribute c u nm nm ty) ''name'' = map_option JStr nm"
  by (cases nm; cases ty)
     (simp_all add: createModelAttribute_def obj_get_def opt_entry_def or_else_def truthy_str_def)

lemma has_attr_created:
  "has_attr (attrs @ [createModelAttribute c u nm nm ty]) nm"
  by (simp add: has_attr_def createModelAttribute_name)

lemma new_element_registry:
  assumes "new_element e op st = (nw, st1)"
  shows "\<exists>extra. st_modelAttrs st1 = st_modelAttrs st @ extra"
  using assms by (auto simp: new_element_def Let_def split: if_splits)

lemma new_element_registered:
  assumes "new_element e op st = (Some new, st1)"
  shows "all_nodes (registered_node (st_modelAttrs st1)) new"
proof -
  consider (g) "op_element_type op = Some ''group''" | (t) "op_element_type op = Some ''text''"
    | (f) "op_element_type op = Some ''field''"
    | (o) "op_element_type op \<notin> {Some ''group'', Some ''text'', Some ''field''}" by blast
  then show ?thesis
  proof cases
    case g
    with assms show ?thesis
      by (auto simp: new_element_def createGroupElement_def Let_def registered_node_def)
  next
    case t
    with assms show ?thesis
      by (auto simp: new_element_def createTextElement_def Let_def registered_node_def)
  next
    case f
    show ?thesis
    proof (cases "has_attr (st_modelAttrs st) (field_name op)")
      case True
      with f assms show ?thesis
        by (auto simp: new_element_def createAttributeElement_def Let_def registered_node_def)
    next
      case False
      with f assms show ?thesis
        by (auto simp: new_element_def createAttributeElement_def Let_def registered_node_def
            has_attr_created)
    qed
  next
    case o
    with assms show ?thesis by (auto simp: new_element_def)
  qed
qed

lemma apply_add_registry:
  "st_modelAttrs (apply_add e op st) = st_modelAttrs (snd (new_element e op st))"
  by (cases "new_element e op st"; cases "fst (new_element e op st)")
     (auto simp: apply_add_def)

lemma apply_add_registered:
  assumes "all_nodes_list (registered_node (st_modelAttrs st)) (st_elements st)"
  shows "all_nodes_list (registered_node (st_modelAttrs (apply_add e op st)))
           (st_elements (apply_add e op st))"
proof (cases "new_element e op st")
  case (Pair nw st1)
  obtain extra where extra: "st_modelAttrs st1 = st_modelAttrs st @ extra"
    using new_element_registry[OF Pair] by blast
  have base: "all_nodes_list (registered_node (st_modelAttrs st1)) (st_elements st)"
    using registered_append[OF assms] extra by simp
  show ?thesis
  proof (cases nw)
    case None
    with Pair base show ?thesis by (simp add: apply_add_elements apply_add_registry)
  next
    case (Some new)
    have "all_nodes_list (registered_node (st_modelAttrs st1))
            (insert_added op (resolve_target (st_aliases st) op) new (st_elements st))"
    proof (rule insert_added_all_nodes[OF registered_node_stable base])
      show "all_nodes (registered_node (st_modelAttrs st1)) new"
        using new_element_registered Pair Some by blast
    next
      fix t ks assume "registered_node (st_modelAttrs st1) t"
      then show "registered_node (st_modelAttrs st1) (set_elements (Some ks) t)"
        by (simp add: registered_node_def)
    qed
    with Pair Some show ?thesis by (simp add: apply_add_elements apply_add_registry)
  qed
qed

lemma register_names_registry:
  "\<exists>extra. fst (register_names e names (attrs, t)) = attrs @ extra"
proof (induction names arbitrary: attrs t)
  case Nil
  show ?case by simp
next
  case (Cons n names)
  show ?case
  proof (cases "has_attr attrs (Some n)")
    case True
    then show ?thesis using Cons[of attrs t] by simp
  next
    case False
    let ?a = "attrs @ [createModelAttribute (now e t) (now e (Suc t)) (Some n) (Some n) (Some ''string'')]"
    obtain extra where "fst (register_names e names (?a, Suc (Suc t))) = ?a @ extra"
      using Cons[of ?a "Suc (Suc t)"] by blast
    then show ?thesis using False by simp
  qed
qed

lemma register_names_has:
  "n \<in> set names \<Longrightarrow> has_attr (fst (register_names e names (attrs, t))) (Some n)"
proof (induction names arbitrary: attrs t)
  case Nil
  then show ?case by simp
next
  case (Cons m names)
  let ?a = "attrs @ [createModelAttribute (now e t) (now e (Suc t)) (Some m) (Some m) (Some ''string'')]"
  show ?case
  proof (cases "n = m")
    case True
    show ?thesis
    proof (cases "has_attr attrs (Some m)")
      case h: True
      obtain extra where "fst (register_names e names (attrs, t)) = attrs @ extra"
        using register_names_registry by blast
      then show ?thesis using h True has_attr_append[OF h] by simp
    next
      case h: False
      obtain extra where eq: "fst (register_names e names (?a, Suc (Suc t))) = ?a @ extra"
        using register_names_registry by blast
      have "has_attr (?a @ extra) (Some m)" by (rule has_attr_append[OF has_attr_created])
      then show ?thesis using h True eq by simp
    qed
  next
    case False
    then have "n \<in> set names" using Cons.prems by simp
    then show ?thesis using Cons.IH by simp
  qed
qed

lemma transformElement_registered:
  "all_nodes (registered_node attrs) el
     \<Longrightarrow> (\<And>n. has_attr attrs n \<Longrightarrow> has_attr attrs' n)
     \<Longrightarrow> (\<And>n. n \<in> set (collectFieldNames (fst (transformElement e lf lr sfx el t)))
            \<Longrightarrow> has_attr attrs' (Some n))
     \<Longrightarrow> all_nodes (registered_node attrs') (fst (transformElement e lf lr sfx el t))"
  "all_nodes_list (registered_node attrs) es
     \<Longrightarrow> (\<And>n. has_attr attrs n \<Longrightarrow> has_attr attrs' n)
     \<Longrightarrow> (\<And>n. n \<in> set (collectFieldNames_list (fst (transformElement_list e lf lr sfx es t)))
            \<Longrightarrow> has_attr attrs' (Some n))
     \<Longrightarrow> all_nodes_list (registered_node attrs') (fst (transformElement_list e lf lr sfx es t))"
proof (induction e lf lr sfx el t and e lf lr sfx es t
       rule: transformElement_transformElement_list.induct)
  case (1 e lf lr sfx ad u ty n l c s v ks x t)
  have node: "ty = Some ''attribute'' \<Longrightarrow> has_attr attrs' (transform_name sfx ty n)"
  proof -
    assume a: "ty = Some ''attribute''"
    show ?thesis
    proof (cases "sfx \<noteq> [] \<and> truthy_str n")
      case True
      then have "transform_name sfx ty n = Some (the n @ sfx)"
        using a by (simp add: transform_name_def)
      moreover have "truthy_str (Some (the n @ sfx))" using True by (simp add: truthy_str_def)
      ultimately have "the n @ sfx \<in> set (collectFieldNames
          (fst (transformElement e lf lr sfx (Element ad u ty n l c s v ks x) t)))"
        using a by (cases ks) (simp_all add: split_beta Let_def)
      then have "has_attr attrs' (Some (the n @ sfx))" using "1.prems"(3) by blast
      then show ?thesis using \<open>transform_name sfx ty n = Some (the n @ sfx)\<close> by simp
    next
      case False
      then have "transform_name sfx ty n = n" by (auto simp: transform_name_def)
      moreover have "has_attr attrs n" using "1.prems"(1) a by (simp add: registered_node_def)
      ultimately show ?thesis using "1.prems"(2) by simp
    qed
  qed
  have node': "\<And>u' ks'. registered_node attrs'
      (Element ad u' ty (transform_name sfx ty n) (transform_label lf lr l)
         (map_option (\<lambda>cf. cf\<lparr>cfg_label := transform_label lf lr (cfg_label cf)\<rparr>) c) s v ks' x)"
    using node by (simp add: registered_node_def)
  show ?case
  proof (cases ks)
    case None
    then show ?thesis using node' by (simp add: Let_def)
  next
    case (Some kids)
    have kids: "all_nodes_list (registered_node attrs) kids" using "1.prems"(1) Some by simp
    have "all_nodes_list (registered_node attrs')
            (fst (transformElement_list e lf lr sfx kids (Suc t)))"
    proof (rule "1.IH"[OF refl refl refl Some kids "1.prems"(2)])
      fix m assume "m \<in> set (collectFieldNames_list (fst (transformElement_list e lf lr sfx kids (Suc t))))"
      then have "m \<in> set (collectFieldNames
          (fst (transformElement e lf lr sfx (Element ad u ty n l c s v ks x) t)))"
        using Some by (simp add: split_beta Let_def)
      then show "has_attr attrs' (Some m)" using "1.prems"(3) by blast
    qed
    then show ?thesis using Some node' by (simp add: Let_def split_beta)
  qed
next
  case (2 e lf lr sfx t)
  show ?case by simp
next
  case (3 e lf lr sfx k ks t)
  have a: "all_nodes (registered_node attrs') (fst (transformElement e lf lr sfx k t))"
  proof (rule "3.IH"(1))
    show "all_nodes (registered_node attrs) k" using "3.prems"(1) by simp
    show "\<And>n. has_attr attrs n \<Longrightarrow> has_attr attrs' n" by (rule "3.prems"(2))
    fix n assume "n \<in> set (collectFieldNames (fst (transformElement e lf lr sfx k t)))"
    then show "has_attr attrs' (Some n)" using "3.prems"(3)[of n] by (simp add: split_beta)
  qed
  have b: "all_nodes_list (registered_node attrs')
             (fst (transformElement_list e lf lr sfx ks (snd (transformElement e lf lr sfx k t))))"
  proof (rule "3.IH"(2)[OF refl prod.collapse])
    show "all_nodes_list (registered_node attrs) ks" using "3.prems"(1) by simp
    show "\<And>n. has_attr attrs n \<Longrightarrow> has_attr attrs' n" by (rule "3.prems"(2))
    fix n assume "n \<in> set (collectFieldNames_list
        (fst (transformElement_list e lf lr sfx ks (snd (transformElement e lf lr sfx k t)))))"
    then show "has_attr attrs' (Some n)" using "3.prems"(3)[of n] by (simp add: split_beta)
  qed
  from a b show ?case by (simp add: split_beta)
qed

lemma transformElement_no_suffix:
  assumes "shape_pred P"
  shows "all_nodes P (fst (transformElement e lf lr [] el t)) = all_nodes P el"
    and "all_nodes_list P (fst (transformElement_list e lf lr [] es t)) = all_nodes_list P es"
proof (induction e lf lr "[] :: string" el t and e lf lr "[] :: string" es t
       rule: transformElement_transformElement_list.induct)
  case (1 e lf lr ad u ty n l c s v ks x t)
  show ?case
  proof (cases ks)
    case None
    have "P (Element ad (Some (generateUid e t)) ty n (transform_label lf lr l)
               (map_option (\<lambda>cf. cf\<lparr>cfg_label := transform_label lf lr (cfg_label cf)\<rparr>) c)
               s v None x)
          = P (Element ad u ty n l c s v None x)"
      by (rule shape_predD[OF assms]) (simp_all add: children_def)
    with None show ?thesis by (simp add: Let_def transform_name_def)
  next
    case (Some kids)
    have "P (Element ad (Some (generateUid e t)) ty n (transform_label lf lr l)
               (map_option (\<lambda>cf. cf\<lparr>cfg_label := transform_label lf lr (cfg_label cf)\<rparr>) c)
               s v (Some (fst (transformElement_list e lf lr [] kids (Suc t)))) x)
          = P (Element ad u ty n l c s v (Some kids) x)"
      by (rule shape_predD[OF assms]) (simp_all add: children_def transformElement_list_empty)
    with Some 1 show ?thesis by (simp add: split_beta Let_def transform_name_def)
  qed
next
  case (2 e lf lr t)
  show ?case by simp
next
  case (3 e lf lr k ks t)
  from 3(1) 3(2)[OF refl prod.collapse] show ?case by (simp add: split_beta)
qed

lemma apply_clone_subtree_registry:
  "st_modelAttrs (apply_clone_subtree e op st) =
     (case findElementByUid (st_elements st) (ref_of (source_uid op)) of
        None \<Rightarrow> st_modelAttrs st
      | Some sourceEl \<Rightarrow>
          if truthy_str (field_suffix op) then
            fst (register_names e
                   (collectFieldNames
                      (fst (transformElement e (label_find op) (label_replace op)
                              (the (field_suffix op)) (fst (deep_copy sourceEl (st_alloc st))) (st_tick st))))
                   (st_modelAttrs st,
                    snd (transformElement e (label_find op) (label_replace op)
                           (the (field_suffix op)) (fst (deep_copy sourceEl (st_alloc st))) (st_tick st))))
          else st_modelAttrs st)"
  by (auto simp: apply_clone_subtree_def Let_def split_beta truthy_str_def
      split: option.splits)

lemma apply_clone_subtree_registered:
  assumes "all_nodes_list (registered_node (st_modelAttrs st)) (st_elements st)"
  shows "all_nodes_list (registered_node (st_modelAttrs (apply_clone_subtree e op st)))
           (st_elements (apply_clone_subtree e op st))"
proof (cases "findElementByUid (st_elements st) (ref_of (source_uid op))")
  case None
  then show ?thesis using assms
    by (simp add: apply_clone_subtree_elements apply_clone_subtree_registry)
next
  case (Some sourceEl)
  let ?sfx = "if truthy_str (field_suffix op) then the (field_suffix op) else []"
  let ?tr = "transformElement e (label_find op) (label_replace op) ?sfx (fst (deep_copy sourceEl (st_alloc st))) (st_tick st)"
  let ?cloned = "fst ?tr"
  let ?attrs' = "st_modelAttrs (apply_clone_subtree e op st)"
  let ?f = "\<lambda>el. if or_else (position op) (Some ''after'') = Some ''before''
                  then [?cloned, el] else [el, ?cloned]"
  have src: "all_nodes (registered_node (st_modelAttrs st)) (fst (deep_copy sourceEl (st_alloc st)))"
    using find_all_nodes[OF assms Some]
    by (simp add: deep_copy_all_nodes[OF registered_node_address_free])
  have grow: "\<exists>extra. ?attrs' = st_modelAttrs st @ extra"
  proof (cases "truthy_str (field_suffix op)")
    case True
    then show ?thesis using Some register_names_registry
      by (simp add: apply_clone_subtree_registry)
  next
    case False
    then show ?thesis using Some by (simp add: apply_clone_subtree_registry)
  qed
  then obtain extra where extra: "?attrs' = st_modelAttrs st @ extra" by blast
  have base: "all_nodes_list (registered_node ?attrs') (st_elements st)"
    using registered_append[OF assms, of extra] extra by simp
  have cl: "all_nodes (registered_node ?attrs') ?cloned"
  proof (cases "truthy_str (field_suffix op)")
    case True
    then have a: "?attrs' = fst (register_names e (collectFieldNames ?cloned)
                                   (st_modelAttrs st, snd ?tr))"
      using Some by (simp add: apply_clone_subtree_registry)
    show ?thesis
    proof (rule transformElement_registered(1)[OF src])
      fix n assume "has_attr (st_modelAttrs st) n"
      then show "has_attr ?attrs' n" using extra has_attr_append by simp
    next
      fix n assume "n \<in> set (collectFieldNames ?cloned)"
      then show "has_attr ?attrs' (Some n)" using register_names_has a by simp
    qed
  next
    case False
    then have "?attrs' = st_modelAttrs st" using Some by (simp add: apply_clone_subtree_registry)
    moreover have "all_nodes (registered_node (st_modelAttrs st)) ?cloned"
      using False src transformElement_no_suffix(1)[OF registered_node_shape] by simp
    ultimately show ?thesis by simp
  qed
  show ?thesis
  proof (cases "spliceByUid ?f (ref_of (source_uid op)) (st_elements st)")
    case None
    then show ?thesis using Some base by (simp add: apply_clone_subtree_elements)
  next
    case sp: (Some es')
    have "all_nodes_list (registered_node ?attrs') es'"
    proof (rule splice_all_nodes'[OF registered_node_stable base sp])
      fix t assume "all_nodes (registered_node ?attrs') t"
      then show "all_nodes_list (registered_node ?attrs') (?f t)" using cl by simp
    qed
    then show ?thesis using Some sp by (simp add: apply_clone_subtree_elements)
  qed
qed

lemma registry_unchanged:
  "st_modelAttrs (apply_edit op st) = st_modelAttrs st"
  "st_modelAttrs (apply_move op st) = st_modelAttrs st"
  "st_modelAttrs (apply_delete op st) = st_modelAttrs st"
  "st_modelAttrs (apply_replace_subtree e op st) = st_modelAttrs st"
  by (auto simp: apply_edit_def apply_move_def apply_delete_def apply_replace_subtree_def
      Let_def split_beta split: option.splits)

lemma registry_unchanged_bulk:
  "apply_bulk_replace op st = Inr st' \<Longrightarrow> st_modelAttrs st' = st_modelAttrs st"
  by (auto simp: apply_bulk_replace_def split: sum.splits)

lemma apply_operation_registered:
  assumes "fields_registered st"
    and "structure_registered op st"
    and "apply_operation e op st = Inr st'"
  shows "fields_registered st'"
proof -
  let ?P = "registered_node (st_modelAttrs st)"
  have inv: "all_nodes_list ?P (st_elements st)" using assms(1) by (simp add: fields_registered_def)
  consider (add) "op_type op = ''add''" | (edit) "op_type op = ''edit''"
    | (move) "op_type op = ''move''" | (delete) "op_type op = ''delete''"
    | (bulk) "op_type op = ''bulk_replace''" | (replace) "op_type op = ''replace_subtree''"
    | (clone) "op_type op = ''clone_subtree''"
    | (other) "op_type op \<notin> {''add'', ''edit'', ''move'', ''delete'', ''bulk_replace'',
                                ''replace_subtree'', ''clone_subtree''}"
    by blast
  then show ?thesis
  proof cases
    case add
    then have "st' = apply_add e op st" using assms(3) by (simp add: apply_operation_def)
    then show ?thesis using apply_add_registered[OF inv] by (simp add: fields_registered_def)
  next
    case edit
    then have "st' = apply_edit op st" using assms(3) by (simp add: apply_operation_def)
    then show ?thesis
      using apply_edit_all_nodes[OF registered_node_shape registered_node_stable inv]
      by (simp add: fields_registered_def registry_unchanged)
  next
    case move
    then have "st' = apply_move op st" using assms(3) by (simp add: apply_operation_def)
    moreover have "all_nodes_list ?P (st_elements (apply_move op st))"
      by (rule apply_move_all_nodes[OF registered_node_stable inv])
         (simp add: registered_node_def)
    ultimately show ?thesis by (simp add: fields_registered_def registry_unchanged)
  next
    case delete
    then have "st' = apply_delete op st" using assms(3) by (simp add: apply_operation_def)
    then show ?thesis
      using apply_delete_all_nodes[OF registered_node_stable inv]
      by (simp add: fields_registered_def registry_unchanged)
  next
    case bulk
    then have b: "apply_bulk_replace op st = Inr st'"
      using assms(3) by (simp add: apply_operation_def)
    then show ?thesis
      using apply_bulk_replace_all_nodes[OF registered_node_shape registered_node_stable inv b]
      by (simp add: fields_registered_def registry_unchanged_bulk)
  next
    case replace
    then have "st' = apply_replace_subtree e op st"
      using assms(3) by (simp add: apply_operation_def)
    moreover have "\<And>s. op_structure op = Some s
        \<Longrightarrow> all_nodes ?P (fst (deep_copy s (st_alloc st)))"
      using assms(2) replace
      by (simp add: structure_registered_def deep_copy_all_nodes[OF registered_node_address_free])
    ultimately show ?thesis
      using apply_replace_subtree_all_nodes[OF registered_node_shape registered_node_stable inv]
      by (simp add: fields_registered_def registry_unchanged)
  next
    case clone
    then have "st' = apply_clone_subtree e op st"
      using assms(3) by (simp add: apply_operation_def)
    then show ?thesis using apply_clone_subtree_registered[OF inv]
      by (simp add: fields_registered_def)
  next
    case other
    then have "st' = st" using assms(3) by (simp add: apply_operation_def)
    then show ?thesis using assms(1) by simp
  qed
qed

lemma run_operations_invariant:
  assumes step: "\<And>op st st'. I st \<Longrightarrow> Q op st \<Longrightarrow> apply_operation e op st = Inr st' \<Longrightarrow> I st'"
  shows "I st \<Longrightarrow> each_op Q e ops st \<Longrightarrow> run_operations e ops st = Inr st' \<Longrightarrow> I st'"
proof (induction ops arbitrary: st)
  case Nil
  then show ?case by simp
next
  case (Cons op ops)
  show ?case
  proof (cases "apply_operation e op st")
    case (Inl err)
    with Cons.prems(3) show ?thesis by simp
  next
    case (Inr st1)
    have "I st1" using step[OF Cons.prems(1) _ Inr] Cons.prems(2) by simp
    moreover have "each_op Q e ops st1" using Cons.prems(2) Inr by simp
    moreover have "run_operations e ops st1 = Inr st'" using Cons.prems(3) Inr by simp
    ultimately show ?thesis by (rule Cons.IH)
  qed
qed

lemma initial_state_sel [simp]:
  "st_elements (initial_state e d) = fst (deep_copy_list (Stencil_elements d) (Suc (heap_top e)))"
  "st_modelAttrs (initial_state e d) = ModelAttribute d"
  "st_root (initial_state e d) = heap_top e"
  "st_alloc (initial_state e d) = snd (deep_copy_list (Stencil_elements d) (Suc (heap_top e)))"
  "st_written (initial_state e d) = []"
  by (simp_all add: initial_state_def split_beta)

lemma applyOperations_run:
  "applyOperations e d ops = Inr out \<Longrightarrow>
     \<exists>st. run_operations e ops (initial_state e d) = Inr st
       \<and> Stencil_elements out = st_elements st \<and> ModelAttribute out = st_modelAttrs st"
  by (auto simp: applyOperations_def split: sum.splits)


section \<open>Lemmas on the clone and on the bulk update\<close>

lemma transformElement_corresponds:
  "sfx \<noteq> [] \<Longrightarrow>
     \<forall>t. corresponds (suffixed sfx) el
           (fst (transformElement e lf lr sfx (fst (deep_copy el free)) t))"
  "sfx \<noteq> [] \<Longrightarrow>
     \<forall>t. corresponds_list (suffixed sfx) es
           (fst (transformElement_list e lf lr sfx (fst (deep_copy_list es free)) t))"
proof (induction el free and es free rule: deep_copy_deep_copy_list.induct)
  case (1 ad u ty n l c s v ks x free)
  show ?case
  proof (cases ks)
    case None
    then show ?thesis using "1.prems"
      by (simp add: Let_def suffixed_def named_attribute_def transform_name_def)
  next
    case (Some kids)
    then show ?thesis using "1.prems" "1.IH"[OF Some]
      by (simp add: Let_def split_beta suffixed_def named_attribute_def transform_name_def)
  qed
next
  case (2 free)
  show ?case by simp
next
  case (3 k ks free)
  from 3(1)[OF "3.prems"] 3(2)[OF refl prod.collapse "3.prems"] show ?case
    by (simp add: split_beta)
qed

lemma collectFieldNames_all_nodes:
  "(\<forall>n \<in> set (collectFieldNames el). Q (Some n))
     = all_nodes (\<lambda>x. named_attribute x \<longrightarrow> Q (name x)) el"
  "(\<forall>n \<in> set (collectFieldNames_list es). Q (Some n))
     = all_nodes_list (\<lambda>x. named_attribute x \<longrightarrow> Q (name x)) es"
proof (induction el and es rule: collectFieldNames_collectFieldNames_list.induct)
  case (1 ad u ty n l c s v ks x)
  show ?case
  proof (cases ks)
    case None
    then show ?thesis by (cases n) (auto simp: named_attribute_def truthy_str_def)
  next
    case (Some kids)
    with 1 show ?thesis by (cases n) (auto simp: named_attribute_def truthy_str_def)
  qed
next
  case 2
  show ?case by simp
next
  case (3 k ks)
  then show ?case by auto
qed

lemma bulk_flags_text:
  "cfg_text (case config (bulk_flags op el) of None \<Rightarrow> empty_config | Some c \<Rightarrow> c)
     = cfg_text (case config el of None \<Rightarrow> empty_config | Some c \<Rightarrow> c)"
  by (simp add: bulk_flags_def Let_def set_opt_prop_def set_prop_def split: option.splits)


section \<open>Lemmas on the keyword rewrite\<close>

lemma strip_ci_decomp:
  "strip_ci p s = Some rest \<Longrightarrow> \<exists>k. s = k @ rest \<and> eq_ci k p"
proof (induction p s rule: strip_ci.induct)
  case (1 s)
  then show ?case by (simp add: eq_ci_def)
next
  case (2 p ps)
  then show ?case by simp
next
  case (3 p ps c cs)
  then obtain k where "cs = k @ rest" "eq_ci k ps" by (auto split: if_splits)
  moreover have "canonicalize p = canonicalize c" using 3 by (auto split: if_splits)
  ultimately have "c # cs = (c # k) @ rest \<and> eq_ci (c # k) (p # ps)" by (simp add: eq_ci_def)
  then show ?case by blast
qed

lemma skip_space_decomp:
  "\<exists>ws. s = ws @ skip_space s \<and> list_all is_space ws"
proof -
  have "s = takeWhile is_space s @ skip_space s" by (simp add: skip_space_def)
  moreover have "list_all is_space (takeWhile is_space s)"
    by (simp add: list_all_iff) (meson set_takeWhileD)
  ultimately show ?thesis by blast
qed

lemma expect_char_decomp: "expect_char c s = Some rest \<Longrightarrow> s = c # rest"
  by (cases s) (auto simp: expect_char_def split: if_splits)

lemma match_after_property_decomp:
  assumes "match_after_property kw s prop = Some (n, g1)"
  shows "\<exists>p ws1 ws2 k post. s = p @ ws1 @ '':'' @ ws2 @ k @ post \<and> eq_ci p prop
           \<and> list_all is_space ws1 \<and> list_all is_space ws2 \<and> eq_ci k kw \<and> at_word_end post
           \<and> n = length (p @ ws1 @ '':'' @ ws2 @ k) \<and> g1 = p @ ws1 @ '':'' @ ws2"
proof -
  from assms obtain s1 where s1: "strip_ci prop s = Some s1"
    by (cases "strip_ci prop s") (auto simp: match_after_property_def)
  from assms s1 obtain s2 where s2: "expect_char CHR '':'' (skip_space s1) = Some s2"
    by (cases "expect_char CHR '':'' (skip_space s1)") (auto simp: match_after_property_def)
  from assms s1 s2 obtain s3 where s3: "strip_ci kw (skip_space s2) = Some s3"
    by (cases "strip_ci kw (skip_space s2)") (auto simp: match_after_property_def)
  from assms s1 s2 s3 have we: "at_word_end s3"
    and n: "n = length s - length s3"
    and g: "g1 = take (length s - length (skip_space s2)) s"
    by (auto simp: match_after_property_def split: if_splits)
  obtain p where p: "s = p @ s1" "eq_ci p prop" using strip_ci_decomp[OF s1] by blast
  obtain ws1 where ws1: "s1 = ws1 @ skip_space s1" "list_all is_space ws1"
    using skip_space_decomp by blast
  have c: "skip_space s1 = CHR '':'' # s2" using expect_char_decomp[OF s2] .
  obtain ws2 where ws2: "s2 = ws2 @ skip_space s2" "list_all is_space ws2"
    using skip_space_decomp by blast
  obtain k where k: "skip_space s2 = k @ s3" "eq_ci k kw" using strip_ci_decomp[OF s3] by blast
  have s: "s = p @ ws1 @ '':'' @ ws2 @ k @ s3"
    using p(1) ws1(1) c ws2(1) k(1) by (metis append_Cons append_Nil)
  have "n = length (p @ ws1 @ '':'' @ ws2 @ k)" using n s by simp
  moreover have "g1 = p @ ws1 @ '':'' @ ws2"
  proof -
    have "s = (p @ ws1 @ '':'' @ ws2) @ skip_space s2" using s k(1) by simp
    then have "take (length s - length (skip_space s2)) s = p @ ws1 @ '':'' @ ws2"
      by (metis add_diff_cancel_right' append_eq_conv_conj length_append)
    then show ?thesis using g by simp
  qed
  ultimately show ?thesis using s p(2) ws1(2) ws2(2) k(2) we by blast
qed

lemma first_match_Some:
  "first_match f xs = Some y \<Longrightarrow> \<exists>x \<in> set xs. f x = Some y"
  by (induction xs) (auto split: option.splits)

lemma match_keyword_decomp:
  assumes "match_keyword kw s = Some (n, g1)"
  shows "\<exists>p ws1 ws2 k post. s = p @ ws1 @ '':'' @ ws2 @ k @ post \<and> declaration_property p
           \<and> list_all is_space ws1 \<and> list_all is_space ws2 \<and> eq_ci k kw \<and> at_word_end post
           \<and> n = length (p @ ws1 @ '':'' @ ws2 @ k) \<and> g1 = p @ ws1 @ '':'' @ ws2"
proof -
  from assms have "first_match (match_after_property kw s)
      [''color'', ''background-color'', ''border-color''] = Some (n, g1)"
    by (simp only: match_keyword_def)
  from first_match_Some[OF this] obtain pn where
    pn: "pn \<in> set [''color'', ''background-color'', ''border-color'']"
    and m: "match_after_property kw s pn = Some (n, g1)"
    by blast
  from match_after_property_decomp[OF m] obtain p ws1 ws2 k post where
    d: "s = p @ ws1 @ '':'' @ ws2 @ k @ post" "eq_ci p pn" "list_all is_space ws1"
       "list_all is_space ws2" "eq_ci k kw" "at_word_end post"
       "n = length (p @ ws1 @ '':'' @ ws2 @ k)" "g1 = p @ ws1 @ '':'' @ ws2"
    by blast
  from pn have "pn = ''color'' \<or> pn = ''background-color'' \<or> pn = ''border-color''"
    by (simp only: set_simps insert_iff empty_iff simp_thms)
  with d(2) have "declaration_property p"
    unfolding declaration_property_def by blast
  with d show ?thesis by blast
qed

lemma getSubstitution_group1:
  "getSubstitution m b a [g1] (''$1'' @ tgt) = g1 @ getSubstitution m b a [g1] tgt"
proof (cases tgt)
  case Nil
  have d: "is_digit CHR ''1''" "digit_val CHR ''1'' = 1" by (simp_all add: is_digit_def digit_val_def)
  show ?thesis using Nil d by simp
next
  case (Cons e t')
  have d: "is_digit CHR ''1''" "digit_val CHR ''1'' = 1" by (simp_all add: is_digit_def digit_val_def)
  have "\<not> (10 * digit_val CHR ''1'' + digit_val e \<le> length [g1])" using d by simp
  then show ?thesis using Cons d by simp
qed

lemma getSubstitution_group1_Cons:
  "getSubstitution m b a [g1] (CHR ''$'' # CHR ''1'' # tgt) = g1 @ getSubstitution m b a [g1] tgt"
  using getSubstitution_group1[of m b a g1 tgt] by simp

lemma replace_keyword_rewrite:
  "keyword_rewrite kw s
     (replace_global (match_keyword kw)
        (\<lambda>group1 preceding matched following.
           getSubstitution matched preceding following [group1] (''$1'' @ tgt))
        pre s)"
proof (induction s arbitrary: pre rule: length_induct)
  case (1 s)
  let ?rep = "\<lambda>group1 preceding matched following.
           getSubstitution matched preceding following [group1] (''$1'' @ tgt)"
  show ?case
  proof (cases s)
    case Nil
    then show ?thesis by (simp add: keyword_rewrite.finished)
  next
    case (Cons c cs)
    show ?thesis
    proof (cases "match_keyword kw (c # cs)")
      case None
      have "keyword_rewrite kw cs (replace_global (match_keyword kw) ?rep (pre @ [c]) cs)"
        using 1 Cons by simp
      then show ?thesis using Cons None by (simp add: keyword_rewrite.copy)
    next
      case (Some hit)
      obtain n g1 where hit: "hit = (n, g1)" by (cases hit)
      from match_keyword_decomp[of kw "c # cs" n g1] Some hit
      obtain p ws1 ws2 k post where
        d: "c # cs = p @ ws1 @ '':'' @ ws2 @ k @ post" "declaration_property p"
           "list_all is_space ws1" "list_all is_space ws2" "eq_ci k kw" "at_word_end post"
           "n = length (p @ ws1 @ '':'' @ ws2 @ k)" "g1 = p @ ws1 @ '':'' @ ws2"
        by auto
      let ?matched = "p @ ws1 @ '':'' @ ws2 @ k"
      have split: "c # cs = ?matched @ post" using d(1) by simp
      have tk: "take n (c # cs) = ?matched" using d(7) split by simp
      have dr: "drop n (c # cs) = post" using d(7) split by simp
      have "n \<ge> 1" using d(7) by simp
      then have dr': "drop (n - 1) cs = post" using dr by (cases n) simp_all
      have "length post < length s" using Cons split by (metis d(7) \<open>n \<ge> 1\<close> length_append
            less_add_same_cancel2 less_eq_Suc_le add.commute One_nat_def)
      then have ih: "keyword_rewrite kw post
                       (replace_global (match_keyword kw) ?rep (pre @ ?matched) post)"
        using 1 by blast
      have out: "replace_global (match_keyword kw) ?rep pre (c # cs)
                   = g1 @ getSubstitution ?matched pre post [g1] tgt
                     @ replace_global (match_keyword kw) ?rep (pre @ ?matched) post"
        using Some hit tk dr dr'
        by (simp del: getSubstitution.simps add: getSubstitution_group1_Cons)
      have "keyword_rewrite kw (p @ ws1 @ '':'' @ ws2 @ k @ post)
              (p @ ws1 @ '':'' @ ws2 @ getSubstitution ?matched pre post [g1] tgt
                 @ replace_global (match_keyword kw) ?rep (pre @ ?matched) post)"
        by (rule keyword_rewrite.rewrite[OF d(2,3,4,5,6) ih])
      then show ?thesis using Cons out d(1,8) by simp
    qed
  qed
qed

lemma replace_keywords_rewrites:
  "keyword_rewrites kws s (foldl (\<lambda>result kw. replace_keyword tgt kw result) s kws)"
proof (induction kws arbitrary: s)
  case Nil
  show ?case by simp
next
  case (Cons kw kws)
  have "keyword_rewrite kw s (replace_keyword tgt kw s)"
    unfolding replace_keyword_def by (rule replace_keyword_rewrite)
  then show ?case using Cons[of "replace_keyword tgt kw s"] by auto
qed

lemma keyword_rewrite_no_context:
  assumes "keyword_rewrite kw s out"
    and "\<not> (\<exists>pre p ws1 ws2 k post. s = pre @ p @ ws1 @ '':'' @ ws2 @ k @ post
            \<and> declaration_property p \<and> list_all is_space ws1 \<and> list_all is_space ws2
            \<and> eq_ci k kw \<and> at_word_end post)"
  shows "out = s"
  using assms
proof (induction rule: keyword_rewrite.induct)
  case finished
  show ?case by simp
next
  case (copy s out c)
  have "\<not> (\<exists>pre p ws1 ws2 k post. s = pre @ p @ ws1 @ '':'' @ ws2 @ k @ post
            \<and> declaration_property p \<and> list_all is_space ws1 \<and> list_all is_space ws2
            \<and> eq_ci k kw \<and> at_word_end post)"
  proof
    assume "\<exists>pre p ws1 ws2 k post. s = pre @ p @ ws1 @ '':'' @ ws2 @ k @ post
            \<and> declaration_property p \<and> list_all is_space ws1 \<and> list_all is_space ws2
            \<and> eq_ci k kw \<and> at_word_end post"
    then obtain pre p ws1 ws2 k post where
      "s = pre @ p @ ws1 @ '':'' @ ws2 @ k @ post" "declaration_property p"
      "list_all is_space ws1" "list_all is_space ws2" "eq_ci k kw" "at_word_end post" by blast
    then have "c # s = (c # pre) @ p @ ws1 @ '':'' @ ws2 @ k @ post \<and> declaration_property p
        \<and> list_all is_space ws1 \<and> list_all is_space ws2 \<and> eq_ci k kw \<and> at_word_end post"
      by simp
    with copy.prems show False by blast
  qed
  with copy.IH show ?case by simp
next
  case (rewrite p ws1 ws2 k post out t)
  have "p @ ws1 @ '':'' @ ws2 @ k @ post = [] @ p @ ws1 @ '':'' @ ws2 @ k @ post" by simp
  with rewrite.hyps rewrite.prems show ?case by blast
qed

section \<open>Lemmas on the addresses\<close>

lemma fresh_node_Element [simp]:
  "fresh_node base (Element ad u ty n l c s v ks x) = (base \<le> ad)"
  by (simp add: fresh_node_def)

lemma fresh_node_shape: "shape_pred (fresh_node base)"
  by (auto simp: shape_pred_def fresh_node_def)

lemma fresh_node_stable: "child_stable (fresh_node base)"
  by (auto simp: child_stable_def fresh_node_def)

lemma deep_copy_fresh:
  "base \<le> free \<Longrightarrow> all_nodes (fresh_node base) (fst (deep_copy el free))
                    \<and> free \<le> snd (deep_copy el free)"
  "base \<le> free \<Longrightarrow> all_nodes_list (fresh_node base) (fst (deep_copy_list es free))
                    \<and> free \<le> snd (deep_copy_list es free)"
proof (induction el free and es free rule: deep_copy_deep_copy_list.induct)
  case (1 ad u ty n l c s v ks x free)
  show ?case
  proof (cases ks)
    case None
    then show ?thesis using "1.prems" by simp
  next
    case (Some kids)
    from "1.IH"[OF Some] "1.prems" have
      "all_nodes_list (fresh_node base) (fst (deep_copy_list kids (Suc free)))"
      "Suc free \<le> snd (deep_copy_list kids (Suc free))" by simp_all
    then show ?thesis using Some "1.prems" by (simp add: split_beta)
  qed
next
  case (2 free)
  show ?case by simp
next
  case (3 k ks free)
  from 3(1)[OF "3.prems"] have a: "all_nodes (fresh_node base) (fst (deep_copy k free))"
    and b: "free \<le> snd (deep_copy k free)" by simp_all
  from b "3.prems" have "base \<le> snd (deep_copy k free)" by simp
  from 3(2)[OF refl prod.collapse this] a b show ?case by (simp add: split_beta)
qed

lemma all_nodes_addresses:
  "all_nodes (fresh_node base) el = list_all (\<lambda>a. base \<le> a) (addresses el)"
  "all_nodes_list (fresh_node base) es = list_all (\<lambda>a. base \<le> a) (addresses_list es)"
proof (induction el and es rule: addresses_addresses_list.induct)
  case (1 ad u ty n l c s v ks x)
  then show ?case by (cases ks) simp_all
next
  case 2
  show ?case by simp
next
  case (3 k ks)
  then show ?case by simp
qed

lemma transformElement_fresh:
  "all_nodes (fresh_node base) (fst (transformElement e lf lr sfx el t))
     = all_nodes (fresh_node base) el"
  "all_nodes_list (fresh_node base) (fst (transformElement_list e lf lr sfx es t))
     = all_nodes_list (fresh_node base) es"
proof (induction e lf lr sfx el t and e lf lr sfx es t
       rule: transformElement_transformElement_list.induct)
  case (1 e lf lr sfx ad u ty n l c s v ks x t)
  show ?case
  proof (cases ks)
    case None
    then show ?thesis by (simp add: Let_def)
  next
    case (Some kids)
    with 1 show ?thesis by (simp add: split_beta Let_def)
  qed
next
  case (2 e lf lr sfx t)
  show ?case by simp
next
  case (3 e lf lr sfx k ks t)
  from 3(1) 3(2)[OF refl prod.collapse] show ?case by (simp add: split_beta)
qed

lemma findParentOf_loop_parent:
  "all_nodes_list (fresh_node base) es \<Longrightarrow> (\<forall>p. parent = Some p \<longrightarrow> base \<le> addr p)
     \<Longrightarrow> findParentOf_loop arr es i r parent = Some ctx
     \<Longrightarrow> (\<forall>p. ctx_parent ctx = Some p \<longrightarrow> base \<le> addr p)"
proof (induction arr es i r parent rule: findParentOf_loop.induct)
  case (1 arr i r parent)
  then show ?case by simp
next
  case (2 arr el rest i r parent)
  have Pel: "all_nodes (fresh_node base) el" and Prest: "all_nodes_list (fresh_node base) rest"
    using "2.prems"(1) by simp_all
  show ?case
  proof (cases "uid_is el r")
    case True
    then have "ctx_parent ctx = parent" using "2.prems"(3) by auto
    then show ?thesis using "2.prems"(2) by simp
  next
    case nomatch: False
    show ?thesis
    proof (cases "elements el")
      case None
      with nomatch "2.prems"(3) have "findParentOf_loop arr rest (Suc i) r parent = Some ctx" by simp
      from "2.IH"(1)[OF nomatch None Prest "2.prems"(2) this] show ?thesis .
    next
      case (Some kids)
      have Pnode: "base \<le> addr el" and Pkids: "all_nodes_list (fresh_node base) kids"
        using Pel Some by (simp_all add: all_nodes_Cons_elements fresh_node_def)
      show ?thesis
      proof (cases "findParentOf_loop kids kids 0 r (Some el)")
        case None
        with nomatch Some "2.prems"(3)
        have "findParentOf_loop arr rest (Suc i) r parent = Some ctx" by simp
        from "2.IH"(3)[OF nomatch Some None Prest "2.prems"(2) this] show ?thesis .
      next
        case f: (Some found)
        with nomatch Some "2.prems"(3) have "found = ctx" by simp
        with f have "findParentOf_loop kids kids 0 r (Some el) = Some ctx" by simp
        from "2.IH"(2)[OF nomatch Some Pkids _ this] Pnode show ?thesis by simp
      qed
    qed
  qed
qed

lemma found_addr_fresh:
  "all_nodes_list (fresh_node base) es \<Longrightarrow> list_all (\<lambda>a. base \<le> a) (found_addr es r)"
proof (cases "findElementByUid es r")
  case None
  then show ?thesis by (simp add: found_addr_def)
next
  case (Some t)
  assume "all_nodes_list (fresh_node base) es"
  from find_all_nodes[OF this Some] have "base \<le> addr t"
    by (simp add: all_nodes_unfold[of _ t] fresh_node_def)
  then show ?thesis using Some by (simp add: found_addr_def)
qed

lemma array_owner_fresh:
  assumes "all_nodes_list (fresh_node base) es" "base \<le> doc"
  shows "list_all (\<lambda>a. base \<le> a) (array_owner doc es r)"
proof (cases "findParentOf es r")
  case None
  then show ?thesis by (simp add: array_owner_def)
next
  case (Some ctx)
  then have "findParentOf_loop es es 0 r None = Some ctx" by (simp add: findParentOf_def)
  from findParentOf_loop_parent[OF assms(1) _ this]
  have "\<forall>p. ctx_parent ctx = Some p \<longrightarrow> base \<le> addr p" by simp
  then show ?thesis using Some assms(2) by (simp add: array_owner_def split: option.splits)
qed

lemma place_writes_fresh:
  "all_nodes_list (fresh_node base) es \<Longrightarrow> base \<le> doc
     \<Longrightarrow> list_all (\<lambda>a. base \<le> a) (place_writes doc pos r es)"
  by (simp add: place_writes_def found_addr_fresh array_owner_fresh)

lemma fresh_node_set_elements [simp]:
  "fresh_node base (set_elements ks el) = fresh_node base el"
  by (simp add: fresh_node_def)

lemma frame_edit:
  assumes "works_on_copy base st"
  shows "works_on_copy base (apply_edit op st)"
proof -
  from assms have el: "all_nodes_list (fresh_node base) (st_elements st)"
    and r: "base \<le> st_root st" and a: "base \<le> st_alloc st"
    and w: "list_all (\<lambda>a. base \<le> a) (st_written st)"
    by (simp_all add: works_on_copy_def)
  have 1: "all_nodes_list (fresh_node base) (st_elements (apply_edit op st))"
    by (rule apply_edit_all_nodes[OF fresh_node_shape fresh_node_stable el])
  have 2: "st_root (apply_edit op st) = st_root st" "st_alloc (apply_edit op st) = st_alloc st"
    by (simp_all add: apply_edit_def split: option.splits)
  have 3: "list_all (\<lambda>a. base \<le> a) (st_written (apply_edit op st))"
    using w found_addr_fresh[OF el] by (simp add: apply_edit_def split: option.splits)
  show ?thesis unfolding works_on_copy_def using 1 2 3 r a by simp
qed

lemma frame_delete:
  assumes "works_on_copy base st"
  shows "works_on_copy base (apply_delete op st)"
proof -
  from assms have el: "all_nodes_list (fresh_node base) (st_elements st)"
    and r: "base \<le> st_root st" and a: "base \<le> st_alloc st"
    and w: "list_all (\<lambda>a. base \<le> a) (st_written st)"
    by (simp_all add: works_on_copy_def)
  have 1: "all_nodes_list (fresh_node base) (st_elements (apply_delete op st))"
    by (rule apply_delete_all_nodes[OF fresh_node_stable el])
  have 2: "st_root (apply_delete op st) = st_root st"
    "st_alloc (apply_delete op st) = st_alloc st"
    by (simp_all add: apply_delete_def split: option.splits)
  have 3: "list_all (\<lambda>a. base \<le> a) (st_written (apply_delete op st))"
    using w array_owner_fresh[OF el r] by (simp add: apply_delete_def split: option.splits)
  show ?thesis unfolding works_on_copy_def using 1 2 3 r a by simp
qed

lemma frame_move:
  assumes "works_on_copy base st"
  shows "works_on_copy base (apply_move op st)"
proof -
  from assms have el: "all_nodes_list (fresh_node base) (st_elements st)"
    and r: "base \<le> st_root st" and a: "base \<le> st_alloc st"
    and w: "list_all (\<lambda>a. base \<le> a) (st_written st)"
    by (simp_all add: works_on_copy_def)
  have 1: "all_nodes_list (fresh_node base) (st_elements (apply_move op st))"
    by (rule apply_move_all_nodes[OF fresh_node_stable el]) simp
  have 2: "st_root (apply_move op st) = st_root st" "st_alloc (apply_move op st) = st_alloc st"
    by (simp_all add: apply_move_def Let_def split: option.splits)
  have 3: "list_all (\<lambda>a. base \<le> a) (st_written (apply_move op st))"
  proof (cases "spliceByUid (\<lambda>el. []) (resolve_target (st_aliases st) op) (st_elements st)")
    case None
    then show ?thesis using w by (simp add: apply_move_def Let_def split: option.splits)
  next
    case (Some es1)
    have "all_nodes_list (fresh_node base) es1"
      using splice_remove_all_nodes[OF fresh_node_stable el Some] .
    from place_writes_fresh[OF this r] array_owner_fresh[OF el r] w Some show ?thesis
      by (simp add: apply_move_def Let_def split: option.splits)
  qed
  show ?thesis unfolding works_on_copy_def using 1 2 3 r a by simp
qed

lemma bulk_loop_written:
  "all_nodes_list (fresh_node base) es \<Longrightarrow> list_all (\<lambda>a. base \<le> a) w
     \<Longrightarrow> bulk_loop op us (es, w) = Inr (es', w') \<Longrightarrow> list_all (\<lambda>a. base \<le> a) w'"
proof (induction us arbitrary: es w)
  case Nil
  then show ?case by simp
next
  case (Cons u us)
  show ?case
  proof (cases "findElementByUid es (Ref u)")
    case None
    with Cons show ?thesis by simp
  next
    case (Some el)
    from find_all_nodes[OF Cons.prems(1) Some] have fresh: "base \<le> addr el"
      by (simp add: all_nodes_unfold[of _ el] fresh_node_def)
    show ?thesis
    proof (cases "bulk_update op el")
      case (Inl err)
      with Some Cons.prems show ?thesis by simp
    next
      case (Inr el')
      show ?thesis
      proof (cases "spliceByUid (\<lambda>x. [el']) (Ref u) es")
        case None
        with Some Inr Cons show ?thesis by simp
      next
        case sp: (Some es1)
        have "bulk_loop op [u] (es, w) = Inr (es1, w @ [addr el])"
          using Some Inr sp by simp
        from bulk_loop_all_nodes[OF fresh_node_shape fresh_node_stable Cons.prems(1) this]
        have es1: "all_nodes_list (fresh_node base) es1" .
        have "list_all (\<lambda>a. base \<le> a) (w @ [addr el])" using Cons.prems(2) fresh by simp
        from Cons.IH[OF es1 this] Cons.prems(3) Some Inr sp show ?thesis by simp
      qed
    qed
  qed
qed

lemma frame_bulk_replace:
  assumes "works_on_copy base st" "apply_bulk_replace op st = Inr st'"
  shows "works_on_copy base st'"
proof -
  from assms have el: "all_nodes_list (fresh_node base) (st_elements st)"
    and r: "base \<le> st_root st" and a: "base \<le> st_alloc st"
    and w: "list_all (\<lambda>a. base \<le> a) (st_written st)"
    by (simp_all add: works_on_copy_def)
  obtain es' w' where
    loop: "bulk_loop op (case uids op of None \<Rightarrow> [] | Some us \<Rightarrow> us)
             (st_elements st, st_written st) = Inr (es', w')"
    and st': "st' = st\<lparr>st_elements := es', st_written := w'\<rparr>"
    using assms(2) by (auto simp: apply_bulk_replace_def split: sum.splits)
  have 1: "all_nodes_list (fresh_node base) es'"
    using bulk_loop_all_nodes[OF fresh_node_shape fresh_node_stable el loop] .
  have 3: "list_all (\<lambda>a. base \<le> a) w'" using bulk_loop_written[OF el w loop] .
  show ?thesis unfolding works_on_copy_def using 1 3 r a st' by simp
qed

lemma new_element_frame:
  assumes "works_on_copy base st" "new_element e op st = (nw, st1)"
  shows "st_elements st1 = st_elements st" "st_root st1 = st_root st" "base \<le> st_alloc st1"
    "list_all (\<lambda>a. base \<le> a) (st_written st1)"
    "\<And>new. nw = Some new \<Longrightarrow> all_nodes (fresh_node base) new"
proof -
  from assms(1) have r: "base \<le> st_root st" and a: "base \<le> st_alloc st"
    and w: "list_all (\<lambda>a. base \<le> a) (st_written st)"
    by (simp_all add: works_on_copy_def)
  show "st_elements st1 = st_elements st" using new_element_elements[OF assms(2)] .
  show "st_root st1 = st_root st"
    using assms(2) by (auto simp: new_element_def Let_def split: if_splits)
  show "base \<le> st_alloc st1"
    using assms(2) a by (auto simp: new_element_def Let_def split: if_splits)
  show "list_all (\<lambda>a. base \<le> a) (st_written st1)"
    using assms(2) a r w by (auto simp: new_element_def Let_def split: if_splits)
  show "\<And>new. nw = Some new \<Longrightarrow> all_nodes (fresh_node base) new"
    using assms(2) a
    by (auto simp: new_element_def Let_def createGroupElement_def createTextElement_def
        createAttributeElement_def split: if_splits)
qed

lemma frame_add:
  assumes "works_on_copy base st"
  shows "works_on_copy base (apply_add e op st)"
proof (cases "new_element e op st")
  case (Pair nw st1)
  from assms have el: "all_nodes_list (fresh_node base) (st_elements st)"
    and r: "base \<le> st_root st"
    by (simp_all add: works_on_copy_def)
  note f = new_element_frame[OF assms Pair]
  show ?thesis
  proof (cases nw)
    case None
    then have "apply_add e op st = st1" using Pair by (simp add: apply_add_def)
    then show ?thesis using f el r by (simp add: works_on_copy_def)
  next
    case (Some new)
    have new: "all_nodes (fresh_node base) new" using f(5) Some by simp
    have 1: "all_nodes_list (fresh_node base)
               (insert_added op (resolve_target (st_aliases st) op) new (st_elements st))"
      by (rule insert_added_all_nodes[OF fresh_node_stable el new]) simp
    have r1: "base \<le> st_root st1" using f(2) assms by (simp add: works_on_copy_def)
    have 3: "list_all (\<lambda>a. base \<le> a)
               (added_writes op (resolve_target (st_aliases st) op) (st_root st1)
                  (st_elements st))"
      using r1 place_writes_fresh[OF el r1] by (simp add: added_writes_def)
    show ?thesis unfolding works_on_copy_def
      using Pair Some 1 3 f(1,3,4) r1 by (simp add: apply_add_def)
  qed
qed

lemma frame_replace_subtree:
  assumes "works_on_copy base st"
  shows "works_on_copy base (apply_replace_subtree e op st)"
proof -
  from assms have el: "all_nodes_list (fresh_node base) (st_elements st)"
    and r: "base \<le> st_root st" and a: "base \<le> st_alloc st"
    and w: "list_all (\<lambda>a. base \<le> a) (st_written st)"
    by (simp_all add: works_on_copy_def)
  have 1: "all_nodes_list (fresh_node base) (st_elements (apply_replace_subtree e op st))"
    by (rule apply_replace_subtree_all_nodes[OF fresh_node_shape fresh_node_stable el])
       (simp add: deep_copy_fresh(1)[OF a])
  have 2: "st_root (apply_replace_subtree e op st) = st_root st"
    by (simp add: apply_replace_subtree_def Let_def split_beta split: option.splits)
  have 4: "base \<le> st_alloc (apply_replace_subtree e op st)"
    using a deep_copy_fresh(1)[OF order_refl, of "st_alloc st"]
    by (auto simp: apply_replace_subtree_def Let_def split_beta split: option.splits
        intro: order_trans)
  have new: "\<And>s. list_all (\<lambda>a. base \<le> a)
               (addresses (fst (regenerateUids e (fst (deep_copy s (st_alloc st))) (st_tick st))))"
    using deep_copy_fresh(1)[OF a]
    by (simp add: all_nodes_addresses(1)[symmetric] regenerateUids_all_nodes(1)[OF fresh_node_shape])
  have 3: "list_all (\<lambda>a. base \<le> a) (st_written (apply_replace_subtree e op st))"
    using w new array_owner_fresh[OF el r]
    by (simp add: apply_replace_subtree_def Let_def split_beta split: option.splits)
  show ?thesis unfolding works_on_copy_def using 1 2 3 4 r by simp
qed

lemma frame_clone_subtree:
  assumes "works_on_copy base st"
  shows "works_on_copy base (apply_clone_subtree e op st)"
proof -
  from assms have el: "all_nodes_list (fresh_node base) (st_elements st)"
    and r: "base \<le> st_root st" and a: "base \<le> st_alloc st"
    and w: "list_all (\<lambda>a. base \<le> a) (st_written st)"
    by (simp_all add: works_on_copy_def)
  have cl: "\<And>s sfx. all_nodes (fresh_node base)
              (fst (transformElement e (label_find op) (label_replace op) sfx
                      (fst (deep_copy s (st_alloc st))) (st_tick st)))"
    using deep_copy_fresh(1)[OF a] by (simp add: transformElement_fresh)
  have 1: "all_nodes_list (fresh_node base) (st_elements (apply_clone_subtree e op st))"
  proof (cases "findElementByUid (st_elements st) (ref_of (source_uid op))")
    case None
    then show ?thesis using el by (simp add: apply_clone_subtree_elements)
  next
    case (Some sourceEl)
    let ?cloned = "fst (transformElement e (label_find op) (label_replace op)
        (if truthy_str (field_suffix op) then the (field_suffix op) else [])
        (fst (deep_copy sourceEl (st_alloc st))) (st_tick st))"
    let ?f = "\<lambda>el. if or_else (position op) (Some ''after'') = Some ''before''
                    then [?cloned, el] else [el, ?cloned]"
    show ?thesis
    proof (cases "spliceByUid ?f (ref_of (source_uid op)) (st_elements st)")
      case None
      then show ?thesis using Some el by (simp add: apply_clone_subtree_elements)
    next
      case sp: (Some es')
      have "all_nodes_list (fresh_node base) es'"
      proof (rule splice_all_nodes'[OF fresh_node_stable el sp])
        fix t assume "all_nodes (fresh_node base) t"
        then show "all_nodes_list (fresh_node base) (?f t)" using cl by simp
      qed
      then show ?thesis using Some sp by (simp add: apply_clone_subtree_elements)
    qed
  qed
  have 2: "st_root (apply_clone_subtree e op st) = st_root st"
    by (simp add: apply_clone_subtree_def Let_def split_beta split: option.splits)
  have 4: "base \<le> st_alloc (apply_clone_subtree e op st)"
    using a deep_copy_fresh(1)[OF order_refl, of "st_alloc st"]
    by (auto simp: apply_clone_subtree_def Let_def split_beta split: option.splits
        intro: order_trans)
  have 3: "list_all (\<lambda>a. base \<le> a) (st_written (apply_clone_subtree e op st))"
    using w r cl array_owner_fresh[OF el r]
    by (simp add: apply_clone_subtree_def Let_def split_beta all_nodes_addresses(1)[symmetric]
        split: option.splits)
  show ?thesis unfolding works_on_copy_def using 1 2 3 4 r by simp
qed

lemma frame_operation:
  assumes "works_on_copy base st" "apply_operation e op st = Inr st'"
  shows "works_on_copy base st'"
proof -
  consider (add) "op_type op = ''add''" | (edit) "op_type op = ''edit''"
    | (move) "op_type op = ''move''" | (delete) "op_type op = ''delete''"
    | (bulk) "op_type op = ''bulk_replace''" | (replace) "op_type op = ''replace_subtree''"
    | (clone) "op_type op = ''clone_subtree''"
    | (other) "op_type op \<notin> {''add'', ''edit'', ''move'', ''delete'', ''bulk_replace'',
                                ''replace_subtree'', ''clone_subtree''}"
    by blast
  then show ?thesis
  proof cases
    case add
    then have "st' = apply_add e op st" using assms(2) by (simp add: apply_operation_def)
    then show ?thesis using frame_add[OF assms(1)] by simp
  next
    case edit
    then have "st' = apply_edit op st" using assms(2) by (simp add: apply_operation_def)
    then show ?thesis using frame_edit[OF assms(1)] by simp
  next
    case move
    then have "st' = apply_move op st" using assms(2) by (simp add: apply_operation_def)
    then show ?thesis using frame_move[OF assms(1)] by simp
  next
    case delete
    then have "st' = apply_delete op st" using assms(2) by (simp add: apply_operation_def)
    then show ?thesis using frame_delete[OF assms(1)] by simp
  next
    case bulk
    then have "apply_bulk_replace op st = Inr st'" using assms(2) by (simp add: apply_operation_def)
    then show ?thesis using frame_bulk_replace[OF assms(1)] by simp
  next
    case replace
    then have "st' = apply_replace_subtree e op st"
      using assms(2) by (simp add: apply_operation_def)
    then show ?thesis using frame_replace_subtree[OF assms(1)] by simp
  next
    case clone
    then have "st' = apply_clone_subtree e op st"
      using assms(2) by (simp add: apply_operation_def)
    then show ?thesis using frame_clone_subtree[OF assms(1)] by simp
  next
    case other
    then have "st' = st" using assms(2) by (simp add: apply_operation_def)
    then show ?thesis using assms(1) by simp
  qed
qed

lemma frame_run:
  "works_on_copy base st \<Longrightarrow> run_operations e ops st = Inr st' \<Longrightarrow> works_on_copy base st'"
proof (induction ops arbitrary: st)
  case Nil
  then show ?case by simp
next
  case (Cons op ops)
  show ?case
  proof (cases "apply_operation e op st")
    case (Inl err)
    with Cons.prems(2) show ?thesis by simp
  next
    case (Inr st1)
    from frame_operation[OF Cons.prems(1) Inr] Cons.IH[of st1] Cons.prems(2) Inr
    show ?thesis by simp
  qed
qed

lemma frame_initial: "works_on_copy (heap_top e) (initial_state e d)"
  using deep_copy_fresh(2)[of "heap_top e" "Suc (heap_top e)" "Stencil_elements d"]
  by (simp add: works_on_copy_def)

section \<open>Lemmas on the color rewrite\<close>





lemma replace_global_pre:
  assumes "\<And>caps p p' m f. rep caps p m f = rep caps p' m f"
  shows "replace_global m rep pre s = replace_global m rep pre' s"
proof (induction s arbitrary: pre pre' rule: length_induct)
  case (1 s)
  show ?case
  proof (cases s)
    case Nil
    then show ?thesis by simp
  next
    case (Cons c cs)
    show ?thesis
    proof (cases "m (c # cs)")
      case None
      have "replace_global m rep (pre @ [c]) cs = replace_global m rep (pre' @ [c]) cs"
        using 1 Cons by simp
      then show ?thesis using Cons None by simp
    next
      case (Some hit)
      obtain n caps where hit: "hit = (n, caps)" by (cases hit)
      have "length (drop (n - 1) cs) < length s" using Cons by simp
      then have "replace_global m rep (pre @ take n (c # cs)) (drop (n - 1) cs)
                 = replace_global m rep (pre' @ take n (c # cs)) (drop (n - 1) cs)"
        using 1 by blast
      then show ?thesis using Cons Some hit assms[of caps pre _ _ pre'] by simp
    qed
  qed
qed




































lemma getSubstitution_plain:
  "CHR ''$'' \<notin> set t \<Longrightarrow> getSubstitution m p f caps t = t"
proof (induction t rule: induct_list012)
  case 1
  show ?case by simp
next
  case (2 x)
  show ?case by simp
next
  case (3 x y zs)
  then have "x \<noteq> CHR ''$''" by auto
  moreover have "getSubstitution m p f caps (y # zs) = y # zs" using 3 by simp
  ultimately show ?case by simp
qed


lemma replace_keyword_Nil [simp]: "replace_keyword t kw [] = []"
  by (simp add: replace_keyword_def)

lemma replace_keyword_Cons:
  assumes "CHR ''$'' \<notin> set t"
  shows "replace_keyword t kw (c # cs) =
     (case match_keyword kw (c # cs) of
        None \<Rightarrow> c # replace_keyword t kw cs
      | Some (n, g1) \<Rightarrow> g1 @ t @ replace_keyword t kw (drop (n - 1) cs))"
proof -
  let ?rep = "\<lambda>group1 preceding matched following.
          getSubstitution matched preceding following [group1] (''$1'' @ t)"
  have rep: "?rep = (\<lambda>group1 preceding matched following. group1 @ t)"
    using getSubstitution_group1[of _ _ _ _ t] getSubstitution_plain[OF assms]
    by (intro ext) (simp del: getSubstitution.simps)
  have pre: "\<And>p s. replace_global (match_keyword kw) (\<lambda>g p m f. g @ t) p s
                   = replace_global (match_keyword kw) (\<lambda>g p m f. g @ t) [] s"
    by (rule replace_global_pre) simp
  show ?thesis
    unfolding replace_keyword_def rep
    by (simp add: pre[of "[c]"] pre[of "take _ (c # cs)"] split: option.splits)
qed

lemma replace_keyword_nomatch:
  "CHR ''$'' \<notin> set t \<Longrightarrow> match_keyword kw (c # cs) = None
     \<Longrightarrow> replace_keyword t kw (c # cs) = c # replace_keyword t kw cs"
  by (simp add: replace_keyword_Cons)


















































section \<open>Lookup after an update in place\<close>

lemma uid_is_cong: "uid a = uid b \<Longrightarrow> uid_is a r = uid_is b r"
  by (cases r) simp_all

lemma element_text_set_elements [simp]: "element_text (set_elements ks el) = element_text el"
  by (simp add: element_text_def)

lemma find_after_splice:
  assumes "uid el' = uid el" "elements el' = elements el"
  shows "findElementByUid es r = Some el \<Longrightarrow> spliceByUid (\<lambda>x. [el']) r es = Some es'
           \<Longrightarrow> findElementByUid es' r = Some el'
               \<and> (\<not> uid_is el r' \<longrightarrow>
                    map_option element_text (findElementByUid es' r')
                      = map_option element_text (findElementByUid es r'))"
proof (induction es r arbitrary: es' rule: findElementByUid.induct)
  case (1 r)
  then show ?case by simp
next
  case (2 x rest r)
  show ?case
  proof (cases "uid_is x r")
    case True
    then have x: "x = el" and es': "es' = el' # rest" using "2.prems" by simp_all
    have "uid_is el' r" using True x uid_is_cong[OF assms(1)] by simp
    moreover have "\<not> uid_is el r' \<Longrightarrow> \<not> uid_is el' r'" using uid_is_cong[OF assms(1)] by simp
    ultimately show ?thesis using es' x assms(2) by simp
  next
    case nomatch: False
    show ?thesis
    proof (cases "elements x")
      case None
      from nomatch None "2.prems" obtain rest' where
        r: "spliceByUid (\<lambda>x. [el']) r rest = Some rest'" "es' = x # rest'"
        "findElementByUid rest r = Some el" by auto
      from "2.IH"(1)[OF nomatch None r(3) r(1)] show ?thesis
        using nomatch None r(2) by simp
    next
      case (Some kids)
      show ?thesis
      proof (cases "findElementByUid kids r")
        case inkids: (Some found)
        then have f: "found = el" using nomatch Some "2.prems"(1) by simp
        from inkids obtain kids' where k: "spliceByUid (\<lambda>x. [el']) r kids = Some kids'"
          using find_splice_None[of "\<lambda>x. [el']" r kids] by (cases "spliceByUid (\<lambda>x. [el']) r kids") auto
        then have es': "es' = set_elements (Some kids') x # rest"
          using nomatch Some "2.prems"(2) by simp
        from "2.IH"(2)[OF nomatch Some inkids[unfolded f] k]
        have ih: "findElementByUid kids' r = Some el'"
          "\<not> uid_is el r' \<Longrightarrow> map_option element_text (findElementByUid kids' r')
                      = map_option element_text (findElementByUid kids r')" by simp_all
        have u: "\<And>q. uid_is (set_elements (Some kids') x) q = uid_is x q"
          by (rule uid_is_cong) simp
        have 1: "findElementByUid es' r = Some el'" using es' u nomatch ih(1) by simp
        have 2: "map_option element_text (findElementByUid es' r')
                      = map_option element_text (findElementByUid (x # rest) r')"
          if n: "\<not> uid_is el r'"
        proof (cases "uid_is x r'")
          case True
          then show ?thesis using es' u by simp
        next
          case False
          show ?thesis using ih(2)[OF n] es' u False Some
            by (cases "findElementByUid kids' r'"; cases "findElementByUid kids r'") simp_all
        qed
        from 1 2 show ?thesis by simp
      next
        case nokids: None
        then have k: "spliceByUid (\<lambda>x. [el']) r kids = None"
          using find_splice_None[of "\<lambda>x. [el']" r kids] by simp
        from nomatch Some nokids k "2.prems" obtain rest' where
          r: "spliceByUid (\<lambda>x. [el']) r rest = Some rest'" "es' = x # rest'"
          "findElementByUid rest r = Some el" by auto
        from "2.IH"(3)[OF nomatch Some nokids r(3) r(1)] show ?thesis
          using nomatch Some nokids r(2) by (simp split: option.splits)
      qed
    qed
  qed
qed

lemma bulk_update_uid: "bulk_update op el = Inr el' \<Longrightarrow> uid el' = uid el"
  by (auto simp: bulk_update_def Let_def bulk_flags_def split: sum.splits)

lemma bulk_update_text:
  assumes "bulk_update op el = Inr el'"
  shows "bulk_text op (element_text el) = Inr (element_text el')"
proof -
  have "cfg_text (case config (bulk_flags op el) of None \<Rightarrow> empty_config | Some c \<Rightarrow> c)
          = element_text el"
    unfolding bulk_flags_text by (simp add: element_text_def empty_config_def split: option.splits)
  then show ?thesis using assms
    by (auto simp: bulk_update_def Let_def element_text_def split: sum.splits)
qed

lemma find_uid_is: "findElementByUid es r = Some el \<Longrightarrow> uid_is el r"
proof (induction es r rule: findElementByUid.induct)
  case (1 r)
  then show ?case by simp
next
  case (2 x rest r)
  then show ?case by (auto split: if_splits option.splits)
qed

lemma bulk_loop_step:
  assumes "findElementByUid es (Ref v) = Some el" "bulk_loop op (v # us) (es, w) = Inr (es', w')"
  obtains el1 es1 where "bulk_update op el = Inr el1"
    "spliceByUid (\<lambda>x. [el1]) (Ref v) es = Some es1"
    "bulk_loop op us (es1, w @ [addr el]) = Inr (es', w')"
    "findElementByUid es1 (Ref v) = Some el1"
    "\<And>u. u \<noteq> v \<Longrightarrow> map_option element_text (findElementByUid es1 (Ref u))
                      = map_option element_text (findElementByUid es (Ref u))"
proof -
  obtain el1 where el1: "bulk_update op el = Inr el1"
    using assms by (cases "bulk_update op el") simp_all
  obtain es1 where es1: "spliceByUid (\<lambda>x. [el1]) (Ref v) es = Some es1"
    using assms(1) find_splice_None[of "\<lambda>x. [el1]" "Ref v" es]
    by (cases "spliceByUid (\<lambda>x. [el1]) (Ref v) es") auto
  have loop: "bulk_loop op us (es1, w @ [addr el]) = Inr (es', w')"
    using assms el1 es1 by simp
  have v: "uid el = Some v" using find_uid_is[OF assms(1)] by simp
  note fs = find_after_splice[OF bulk_update_uid[OF el1] bulk_update_shape(4)[OF el1] assms(1) es1]
  have "findElementByUid es1 (Ref v) = Some el1" using fs by simp
  moreover have "map_option element_text (findElementByUid es1 (Ref u))
                      = map_option element_text (findElementByUid es (Ref u))" if "u \<noteq> v" for u
    using fs[of "Ref u"] v that by simp
  ultimately show ?thesis using that el1 es1 loop by blast
qed

lemma bulk_loop_other:
  "u \<notin> set us \<Longrightarrow> bulk_loop op us (es, w) = Inr (es', w')
     \<Longrightarrow> map_option element_text (findElementByUid es' (Ref u))
           = map_option element_text (findElementByUid es (Ref u))"
proof (induction us arbitrary: es w)
  case Nil
  then show ?case by simp
next
  case (Cons v us)
  show ?case
  proof (cases "findElementByUid es (Ref v)")
    case None
    with Cons show ?thesis by simp
  next
    case (Some el)
    from bulk_loop_step[OF Some Cons.prems(2)] obtain el1 es1 where
      s: "bulk_loop op us (es1, w @ [addr el]) = Inr (es', w')"
         "\<And>u. u \<noteq> v \<Longrightarrow> map_option element_text (findElementByUid es1 (Ref u))
                      = map_option element_text (findElementByUid es (Ref u))" by metis
    from Cons.IH[OF _ s(1)] Cons.prems(1) s(2)[of u] show ?thesis by simp
  qed
qed

lemma bulk_loop_target:
  "distinct us \<Longrightarrow> u \<in> set us \<Longrightarrow> findElementByUid es (Ref u) = Some el
     \<Longrightarrow> bulk_loop op us (es, w) = Inr (es', w')
     \<Longrightarrow> \<exists>el'. findElementByUid es' (Ref u) = Some el'
           \<and> bulk_text op (element_text el) = Inr (element_text el')"
proof (induction us arbitrary: es w el)
  case Nil
  then show ?case by simp
next
  case (Cons v us)
  show ?case
  proof (cases "u = v")
    case True
    from bulk_loop_step[OF Cons.prems(3)[unfolded True] Cons.prems(4)] obtain el1 es1 where
      s: "bulk_update op el = Inr el1"
         "bulk_loop op us (es1, w @ [addr el]) = Inr (es', w')"
         "findElementByUid es1 (Ref v) = Some el1" by metis
    have "v \<notin> set us" using Cons.prems(1) by simp
    from bulk_loop_other[OF this s(2)] s(3)
    obtain el' where "findElementByUid es' (Ref v) = Some el'" "element_text el' = element_text el1"
      by auto
    then show ?thesis using bulk_update_text[OF s(1)] True by simp
  next
    case False
    then have u: "u \<in> set us" "distinct us" using Cons.prems by simp_all
    show ?thesis
    proof (cases "findElementByUid es (Ref v)")
      case None
      then have "bulk_loop op us (es, w) = Inr (es', w')" using Cons.prems(4) by simp
      from Cons.IH[OF u(2) u(1) Cons.prems(3) this] show ?thesis .
    next
      case (Some x)
      from bulk_loop_step[OF Some Cons.prems(4)] obtain el1 es1 where
        s: "bulk_loop op us (es1, w @ [addr x]) = Inr (es', w')"
           "\<And>u. u \<noteq> v \<Longrightarrow> map_option element_text (findElementByUid es1 (Ref u))
                      = map_option element_text (findElementByUid es (Ref u))" by metis
      from s(2)[OF False] Cons.prems(3) obtain el2 where
        el2: "findElementByUid es1 (Ref u) = Some el2" "element_text el2 = element_text el"
        by auto
      from Cons.IH[OF u(2) u(1) el2(1) s(1)] el2(2) show ?thesis by simp
    qed
  qed
qed

lemma run_operations_append:
  "run_operations e (ops @ [op]) st
     = (case run_operations e ops st of Inl err \<Rightarrow> Inl err | Inr st' \<Rightarrow> apply_operation e op st')"
  by (induction ops arbitrary: st) (simp_all split: sum.splits)

lemma bulk_text_color:
  "truthy_str (find_color op) \<Longrightarrow> truthy_str (replace_color op)
     \<Longrightarrow> bulk_text (op\<lparr>op_find := f, op_replace := r\<rparr>) txt = bulk_text op txt"
  by (simp add: bulk_text_def)

lemma bulk_update_color:
  "truthy_str (find_color op) \<Longrightarrow> truthy_str (replace_color op)
     \<Longrightarrow> bulk_update (op\<lparr>op_find := f, op_replace := r\<rparr>) el = bulk_update op el"
proof -
  assume c: "truthy_str (find_color op)" "truthy_str (replace_color op)"
  have fl: "bulk_flags (op\<lparr>op_find := f, op_replace := r\<rparr>) el = bulk_flags op el"
    by (simp add: bulk_flags_def Let_def)
  show ?thesis unfolding bulk_update_def fl bulk_text_color[OF c] ..
qed

lemma bulk_loop_color:
  "truthy_str (find_color op) \<Longrightarrow> truthy_str (replace_color op)
     \<Longrightarrow> bulk_loop (op\<lparr>op_find := f, op_replace := r\<rparr>) us (es, w) = bulk_loop op us (es, w)"
  by (induction us arbitrary: es w)
    (simp_all add: bulk_update_color split: option.splits sum.splits)

lemma apply_operation_color:
  "op_type op = ''bulk_replace'' \<Longrightarrow> truthy_str (find_color op) \<Longrightarrow> truthy_str (replace_color op)
     \<Longrightarrow> apply_operation e (op\<lparr>op_find := f, op_replace := r\<rparr>) st = apply_operation e op st"
  by (simp add: apply_operation_def apply_bulk_replace_def bulk_loop_color)

section \<open>The move operation\<close>

text \<open>
  C1. The interpreter applies an operation fully or not at all; a move whose
  destination cannot be located leaves the document as it was. The code takes the
  source out of its array before it looks the destination up and does not put it
  back: on the document with the top-level texts \<open>a\<close> and \<open>b\<close>, the move of \<open>a\<close> after
  the unknown identifier \<open>zz\<close> returns the document without \<open>a\<close> (the copy of the
  document is at the address 100, the copy of \<open>b\<close> at 102).
\<close>

theorem move_to_unknown_destination_drops_source:
  "applyOperations counting_env
     (export_of 0 [text_node 1 ''a'' ''one'', text_node 2 ''b'' ''two''] [])
     [(empty_op ''move'')\<lparr>op_uid := Some ''a'', target := Some ''zz'',
                          position := Some ''after''\<rparr>]
   = Inr (export_of 100 [text_node 102 ''b'' ''two''] [])"
  by code_simp

text \<open>
  C2. A move whose destination lies inside the subtree of the moved element is
  rejected and the document stays as it was. In the code the destination is looked up
  after the source has left the forest, so it is not found, and the source is lost
  with its subtree: moving the group \<open>g\<close> inside its own child \<open>t\<close> empties the
  document.
\<close>

theorem move_into_own_subtree_drops_subtree:
  "applyOperations counting_env
     (export_of 0 [group_node 1 ''g'' [text_node 2 ''t'' ''one'']] [])
     [(empty_op ''move'')\<lparr>op_uid := Some ''g'', target := Some ''t'',
                          position := Some ''inside''\<rparr>]
   = Inr (export_of 100 [] [])"
  by code_simp

section \<open>The root sentinel\<close>

text \<open>
  C5. The reference \<open>$root\<close> is never looked up in the alias table. The destination of
  a move is: once an \<open>add\<close> has registered the alias \<open>root\<close>, a move to \<open>$root\<close> goes to
  the element of that alias. Here the text \<open>x\<close> ends inside the new group, whose
  identifier is \<open>uid-0\<close>.
\<close>

theorem move_destination_root_is_resolved_as_alias:
  "map_sum id (\<lambda>d. map (\<lambda>el. (uid el, map uid (children el))) (Stencil_elements d))
     (applyOperations counting_env
        (export_of 0 [text_node 1 ''x'' ''one''] [])
        [(empty_op ''add'')\<lparr>target := Some ''$root'', op_element_type := Some ''group'',
                            op_label := Some ''Section'', op_alias := Some ''root''\<rparr>,
         (empty_op ''move'')\<lparr>op_uid := Some ''x'', target := Some ''$root'',
                             position := Some ''inside''\<rparr>])
   = Inr [(Some ''uid-0'', [Some ''x''])]"
  by code_simp

section \<open>Children under groups only\<close>

text \<open>
  C4, as stated: from a document in which only groups have children, every batch
  returns such a document. The interpreter does not look at the type of the anchor of
  an \<open>inside\<close> position: an \<open>add\<close> of a text inside the text \<open>x\<close> gives \<open>x\<close> a child.
\<close>

theorem add_inside_text_gives_text_a_child:
  "all_nodes_list group_or_childless (Stencil_elements (export_of 0 [text_node 1 ''x'' ''one''] []))
   \<and> map_sum id (\<lambda>d. all_nodes_list group_or_childless (Stencil_elements d))
       (applyOperations counting_env (export_of 0 [text_node 1 ''x'' ''one''] [])
          [(empty_op ''add'')\<lparr>target := Some ''x'', op_element_type := Some ''text'',
                              content := Some ''two'', position := Some ''inside''\<rparr>])
     = Inr False"
  by code_simp

text \<open>
  C4, as amended: from a document in which only groups have children, a batch returns
  such a document provided that each of its operations puts children under groups
  only in the state in which it is applied: the anchor of an \<open>add\<close> or a \<open>move\<close> with
  an \<open>inside\<close> position, when it is found, is a group, and the structure of a
  \<open>replace_subtree\<close> has children under groups only.
\<close>

theorem children_stay_under_groups:
  assumes "all_nodes_list group_or_childless (Stencil_elements d)"
    and "each_op groups_respected e ops (initial_state e d)"
    and "applyOperations e d ops = Inr out"
  shows "all_nodes_list group_or_childless (Stencil_elements out)"
proof -
  obtain st where st: "run_operations e ops (initial_state e d) = Inr st"
    "Stencil_elements out = st_elements st"
    using applyOperations_run[OF assms(3)] by blast
  have "all_nodes_list group_or_childless (st_elements st)"
    by (rule run_operations_invariant[where I="\<lambda>s. all_nodes_list group_or_childless (st_elements s)"
          and Q=groups_respected, OF _ _ assms(2) st(1)])
       (auto intro: apply_operation_groups
          simp: deep_copy_all_nodes[OF group_or_childless_address_free] assms(1))
  then show ?thesis using st(2) by simp
qed

theorem children_stay_under_groups_witness:
  "all_nodes_list group_or_childless (Stencil_elements section_doc)
   \<and> each_op groups_respected counting_env
       [(empty_op ''add'')\<lparr>target := Some ''g'', op_element_type := Some ''text'',
                           content := Some ''Hello'', position := Some ''inside''\<rparr>,
        (empty_op ''move'')\<lparr>op_uid := Some ''x'', target := Some ''g'',
                            position := Some ''inside_start''\<rparr>,
        (empty_op ''replace_subtree'')\<lparr>target_uid := Some ''f1'', position := Some ''replace'',
           op_structure := Some (group_node 10 ''n1'' [text_node 11 ''n2'' ''new''])\<rparr>]
       (initial_state counting_env section_doc)
   \<and> (case applyOperations counting_env section_doc
         [(empty_op ''add'')\<lparr>target := Some ''g'', op_element_type := Some ''text'',
                             content := Some ''Hello'', position := Some ''inside''\<rparr>,
          (empty_op ''move'')\<lparr>op_uid := Some ''x'', target := Some ''g'',
                              position := Some ''inside_start''\<rparr>,
          (empty_op ''replace_subtree'')\<lparr>target_uid := Some ''f1'', position := Some ''replace'',
             op_structure := Some (group_node 10 ''n1'' [text_node 11 ''n2'' ''new''])\<rparr>] of
         Inl err \<Rightarrow> False
       | Inr out \<Rightarrow> all_nodes_list group_or_childless (Stencil_elements out))"
proof -
  let ?ops = "[(empty_op ''add'')\<lparr>target := Some ''g'', op_element_type := Some ''text'',
                             content := Some ''Hello'', position := Some ''inside''\<rparr>,
          (empty_op ''move'')\<lparr>op_uid := Some ''x'', target := Some ''g'',
                              position := Some ''inside_start''\<rparr>,
          (empty_op ''replace_subtree'')\<lparr>target_uid := Some ''f1'', position := Some ''replace'',
             op_structure := Some (group_node 10 ''n1'' [text_node 11 ''n2'' ''new''])\<rparr>]"
  have h1: "all_nodes_list group_or_childless (Stencil_elements section_doc)" by code_simp
  have h2: "each_op groups_respected counting_env ?ops (initial_state counting_env section_doc)" by code_simp
  have ok: "\<not> isl (applyOperations counting_env section_doc ?ops)" by code_simp
  show ?thesis
  proof (cases "applyOperations counting_env section_doc ?ops")
    case (Inl err)
    with ok show ?thesis by simp
  next
    case (Inr out)
    from children_stay_under_groups[OF h1 h2 Inr] h1 h2 Inr show ?thesis by simp
  qed
qed


section \<open>The attribute registry\<close>

text \<open>
  C3. After any batch every attribute element of the output should have a registry
  entry for its field name, entries being created where absent, also for the
  attribute elements of a \<open>replace_subtree\<close> structure. The \<open>add\<close> branch and the
  \<open>clone_subtree\<close> branch create the entries of the attribute elements they bring in;
  the \<open>replace_subtree\<close> branch inserts the structure and creates none. On a document
  whose attribute elements all have their entry, inserting an attribute element named
  \<open>ghost\<close> after the text \<open>x\<close> gives a document in which the field \<open>ghost\<close> has no
  entry.
\<close>

theorem replace_subtree_registers_nothing:
  "all_nodes_list (registered_node (ModelAttribute section_doc)) (Stencil_elements section_doc)
   \<and> map_sum id
       (\<lambda>d. (all_nodes_list (registered_node (ModelAttribute d)) (Stencil_elements d),
              has_attr (ModelAttribute d) (Some ''ghost'')))
       (applyOperations counting_env section_doc
          [(empty_op ''replace_subtree'')\<lparr>target_uid := Some ''x'', position := Some ''after'',
             op_structure := Some (attribute_node 10 ''n1'' ''ghost'')\<rparr>])
     = Inr (False, False)"
  by code_simp

text \<open>
  The other branches keep the registry complete: if every attribute element of the
  input has a registry entry for its field name, then so has every attribute element
  of the output, entries being created by \<open>add\<close> and by \<open>clone_subtree\<close> with a field
  suffix, as long as the structure of each \<open>replace_subtree\<close> of the batch names only
  fields that have an entry when the operation is applied. The missing entries of the
  output are those of \<open>replace_subtree\<close> structures.
\<close>

theorem attribute_fields_stay_registered:
  assumes "all_nodes_list (registered_node (ModelAttribute d)) (Stencil_elements d)"
    and "each_op structure_registered e ops (initial_state e d)"
    and "applyOperations e d ops = Inr out"
  shows "all_nodes_list (registered_node (ModelAttribute out)) (Stencil_elements out)"
proof -
  obtain st where st: "run_operations e ops (initial_state e d) = Inr st"
    "Stencil_elements out = st_elements st" "ModelAttribute out = st_modelAttrs st"
    using applyOperations_run[OF assms(3)] by blast
  have "fields_registered st"
  proof (rule run_operations_invariant[where I=fields_registered
          and Q=structure_registered, OF _ _ assms(2) st(1)])
    show "\<And>op st st'. fields_registered st \<Longrightarrow> structure_registered op st
            \<Longrightarrow> apply_operation e op st = Inr st' \<Longrightarrow> fields_registered st'"
      by (rule apply_operation_registered)
    show "fields_registered (initial_state e d)"
      using assms(1)
      by (simp add: fields_registered_def deep_copy_all_nodes[OF registered_node_address_free])
  qed
  then show ?thesis using st(2,3) by (simp add: fields_registered_def)
qed

theorem attribute_fields_stay_registered_witness:
  "all_nodes_list (registered_node (ModelAttribute section_doc)) (Stencil_elements section_doc)
   \<and> each_op structure_registered counting_env
       [(empty_op ''add'')\<lparr>target := Some ''g'', op_element_type := Some ''field'',
                           field_name := Some ''budget'', position := Some ''inside''\<rparr>,
        (empty_op ''clone_subtree'')\<lparr>source_uid := Some ''g'', field_suffix := Some ''_y2''\<rparr>,
        (empty_op ''replace_subtree'')\<lparr>target_uid := Some ''x'', position := Some ''after'',
           op_structure := Some (attribute_node 10 ''n1'' ''budget_y2'')\<rparr>]
       (initial_state counting_env section_doc)
   \<and> (case applyOperations counting_env section_doc
         [(empty_op ''add'')\<lparr>target := Some ''g'', op_element_type := Some ''field'',
                             field_name := Some ''budget'', position := Some ''inside''\<rparr>,
          (empty_op ''clone_subtree'')\<lparr>source_uid := Some ''g'', field_suffix := Some ''_y2''\<rparr>,
          (empty_op ''replace_subtree'')\<lparr>target_uid := Some ''x'', position := Some ''after'',
             op_structure := Some (attribute_node 10 ''n1'' ''budget_y2'')\<rparr>] of
         Inl err \<Rightarrow> False
       | Inr out \<Rightarrow>
           all_nodes_list (registered_node (ModelAttribute out)) (Stencil_elements out)
           \<and> has_attr (ModelAttribute out) (Some ''budget'')
           \<and> has_attr (ModelAttribute out) (Some ''amount_y2''))"
proof -
  let ?ops = "[(empty_op ''add'')\<lparr>target := Some ''g'', op_element_type := Some ''field'',
                             field_name := Some ''budget'', position := Some ''inside''\<rparr>,
          (empty_op ''clone_subtree'')\<lparr>source_uid := Some ''g'', field_suffix := Some ''_y2''\<rparr>,
          (empty_op ''replace_subtree'')\<lparr>target_uid := Some ''x'', position := Some ''after'',
             op_structure := Some (attribute_node 10 ''n1'' ''budget_y2'')\<rparr>]"
  have h1: "all_nodes_list (registered_node (ModelAttribute section_doc))
              (Stencil_elements section_doc)" by code_simp
  have h2: "each_op structure_registered counting_env ?ops (initial_state counting_env section_doc)"
    by code_simp
  have ok: "case applyOperations counting_env section_doc ?ops of
              Inl err \<Rightarrow> False
            | Inr out \<Rightarrow> has_attr (ModelAttribute out) (Some ''budget'')
                          \<and> has_attr (ModelAttribute out) (Some ''amount_y2'')"
    by code_simp
  show ?thesis
  proof (cases "applyOperations counting_env section_doc ?ops")
    case (Inl err)
    with ok show ?thesis by simp
  next
    case (Inr out)
    from attribute_fields_stay_registered[OF h1 h2 Inr] h1 h2 Inr ok show ?thesis by simp
  qed
qed


section \<open>The clone of a subtree\<close>

text \<open>
  C7, as stated: in the clone every attribute element has the field name of its
  source with the suffix appended. The interpreter appends the suffix where
  \<open>el.name\<close> is truthy: an attribute element whose name is the empty string keeps it,
  and no registry entry is created for it.
\<close>

theorem clone_keeps_empty_field_name:
  "map_sum id
     (\<lambda>d. (map name (Stencil_elements d),
            corresponds_list (suffixed_always ''_y2'') [attribute_node 1 ''f'' []]
              (drop 1 (Stencil_elements d)),
            ModelAttribute d))
     (applyOperations counting_env (export_of 0 [attribute_node 1 ''f'' []] [])
        [(empty_op ''clone_subtree'')\<lparr>source_uid := Some ''f'', field_suffix := Some ''_y2''\<rparr>])
   = Inr ([Some [], Some []], False, [])"
  by code_simp

text \<open>
  C7, as amended: a \<open>clone_subtree\<close> with a non-empty field suffix \<open>S\<close> whose source
  exists inserts, before or after the source, a clone of the same shape in which
  every attribute element with a non-empty field name has the field name of its
  source followed by \<open>S\<close>, every other element has the name of its source, and,
  after the operation, the registry has an entry for the name of every attribute
  element of the clone that has a non-empty field name.
\<close>

theorem clone_subtree_suffix:
  assumes "truthy_str (field_suffix op)"
    and "findElementByUid (st_elements st) (ref_of (source_uid op)) = Some src"
  shows "\<exists>cloned.
           spliceByUid
             (\<lambda>el. if or_else (position op) (Some ''after'') = Some ''before''
                    then [cloned, el] else [el, cloned])
             (ref_of (source_uid op)) (st_elements st)
             = Some (st_elements (apply_clone_subtree e op st))
         \<and> corresponds (suffixed (the (field_suffix op))) src cloned
         \<and> all_nodes (\<lambda>x. named_attribute x
                             \<longrightarrow> has_attr (st_modelAttrs (apply_clone_subtree e op st)) (name x))
             cloned"
proof -
  let ?sfx = "the (field_suffix op)"
  let ?tr = "transformElement e (label_find op) (label_replace op) ?sfx
               (fst (deep_copy src (st_alloc st))) (st_tick st)"
  let ?f = "\<lambda>el. if or_else (position op) (Some ''after'') = Some ''before''
                  then [fst ?tr, el] else [el, fst ?tr]"
  have ne: "?sfx \<noteq> []" using assms(1) by (auto simp: truthy_str_def split: option.splits)
  obtain es' where sp: "spliceByUid ?f (ref_of (source_uid op)) (st_elements st) = Some es'"
    using assms(2) find_splice_None[of ?f "ref_of (source_uid op)" "st_elements st"]
    by (cases "spliceByUid ?f (ref_of (source_uid op)) (st_elements st)") auto
  have "st_elements (apply_clone_subtree e op st) = es'"
    using assms sp by (simp add: apply_clone_subtree_elements)
  then have a: "spliceByUid ?f (ref_of (source_uid op)) (st_elements st)
                  = Some (st_elements (apply_clone_subtree e op st))"
    using sp by simp
  have b: "corresponds (suffixed ?sfx) src (fst ?tr)"
    using transformElement_corresponds(1)[OF ne] by blast
  have "\<forall>n \<in> set (collectFieldNames (fst ?tr)).
          has_attr (st_modelAttrs (apply_clone_subtree e op st)) (Some n)"
    using assms register_names_has by (simp add: apply_clone_subtree_registry)
  then have c: "all_nodes (\<lambda>x. named_attribute x
                   \<longrightarrow> has_attr (st_modelAttrs (apply_clone_subtree e op st)) (name x)) (fst ?tr)"
    by (simp add: collectFieldNames_all_nodes(1))
  from a b c show ?thesis by blast
qed

theorem clone_subtree_suffix_witness:
  "truthy_str (field_suffix ((empty_op ''clone_subtree'')\<lparr>source_uid := Some ''g'',
                               field_suffix := Some ''_y2''\<rparr>))
   \<and> findElementByUid (st_elements (initial_state counting_env section_doc)) (Ref ''g'')
       = Some (group_node 101 ''g'' [attribute_node 102 ''f1'' ''amount''])
   \<and> (\<exists>cloned.
         spliceByUid (\<lambda>el. [el, cloned]) (Ref ''g'') (st_elements (initial_state counting_env section_doc))
           = Some (st_elements
                     (apply_clone_subtree counting_env
                        ((empty_op ''clone_subtree'')\<lparr>source_uid := Some ''g'',
                                                      field_suffix := Some ''_y2''\<rparr>)
                        (initial_state counting_env section_doc)))
         \<and> corresponds (suffixed ''_y2'') (group_node 101 ''g'' [attribute_node 102 ''f1'' ''amount''])
             cloned
         \<and> all_nodes
             (\<lambda>x. named_attribute x
                    \<longrightarrow> has_attr
                         (st_modelAttrs
                            (apply_clone_subtree counting_env
                               ((empty_op ''clone_subtree'')\<lparr>source_uid := Some ''g'',
                                                             field_suffix := Some ''_y2''\<rparr>)
                               (initial_state counting_env section_doc)))
                         (name x))
             cloned)"
proof -
  let ?op = "(empty_op ''clone_subtree'')\<lparr>source_uid := Some ''g'', field_suffix := Some ''_y2''\<rparr>"
  have h1: "truthy_str (field_suffix ?op)" by code_simp
  have h2: "findElementByUid (st_elements (initial_state counting_env section_doc)) (ref_of (source_uid ?op))
              = Some (group_node 101 ''g'' [attribute_node 102 ''f1'' ''amount''])" by code_simp
  have r: "ref_of (source_uid ?op) = Ref ''g''" by code_simp
  have p: "or_else (position ?op) (Some ''after'') \<noteq> Some ''before''" by code_simp
  have s: "the (field_suffix ?op) = ''_y2''" by code_simp
  from clone_subtree_suffix[OF h1 h2, of counting_env] h1 h2 show ?thesis
    unfolding r s using p by simp
qed


section \<open>The text rewrite of bulk_replace\<close>

text \<open>
  C10. Let a \<open>bulk_replace\<close> operation supply a color pair (\<open>find_color\<close> and
  \<open>replace_color\<close>, both truthy) and list the identifier \<open>u\<close> once among its \<open>uids\<close>,
  and let the element that \<open>u\<close> locates in the document after the operations before it
  have text content. Then in the document after the operation the element that \<open>u\<close>
  locates has as its text the result of \<open>replaceColorsInHtml\<close> on the text before, and
  nothing else: the literal replacement is not performed, the whole batch gives the
  same document whatever the literal pair \<open>find\<close>, \<open>replace\<close> of the operation is.
\<close>

theorem bulk_replace_color_before_literal:
  assumes "op_type op = ''bulk_replace''" and "uids op = Some us"
    and "distinct us" and "u \<in> set us"
    and "truthy_str (find_color op)" and "truthy_str (replace_color op)"
    and "applyOperations e d ops = Inr before"
    and "findElementByUid (Stencil_elements before) (Ref u) = Some el"
    and "truthy_str (element_text el)"
    and "applyOperations e d (ops @ [op]) = Inr after"
  shows "(\<exists>el'. findElementByUid (Stencil_elements after) (Ref u) = Some el'
           \<and> map_sum id Some
               (replaceColorsInHtml (the (element_text el)) (the (find_color op))
                  (the (replace_color op)))
             = Inr (element_text el'))
         \<and> applyOperations e d (ops @ [op\<lparr>op_find := f, op_replace := r\<rparr>])
             = applyOperations e d (ops @ [op])"
proof -
  obtain st where st: "run_operations e ops (initial_state e d) = Inr st"
    "Stencil_elements before = st_elements st"
    using applyOperations_run[OF assms(7)] by blast
  obtain st' where st': "run_operations e (ops @ [op]) (initial_state e d) = Inr st'"
    "Stencil_elements after = st_elements st'"
    using applyOperations_run[OF assms(10)] by blast
  have "apply_bulk_replace op st = Inr st'"
    using st'(1) st(1) assms(1) by (simp add: run_operations_append apply_operation_def)
  then obtain w' where loop: "bulk_loop op us (st_elements st, st_written st) = Inr (st_elements st', w')"
    using assms(2) by (auto simp: apply_bulk_replace_def split: sum.splits)
  from bulk_loop_target[OF assms(3,4) assms(8)[unfolded st(2)] loop] obtain el' where
    el': "findElementByUid (st_elements st') (Ref u) = Some el'"
    "bulk_text op (element_text el) = Inr (element_text el')" by blast
  have "map_sum id Some
               (replaceColorsInHtml (the (element_text el)) (the (find_color op))
                  (the (replace_color op)))
             = Inr (element_text el')"
    using el'(2) assms(5,6,9) by (simp add: bulk_text_def split: sum.splits)
  moreover have "applyOperations e d (ops @ [op\<lparr>op_find := f, op_replace := r\<rparr>])
             = applyOperations e d (ops @ [op])"
    using assms(1,5,6)
    by (cases "run_operations e ops (initial_state e d)")
      (simp_all add: applyOperations_def run_operations_append apply_operation_color)
  ultimately show ?thesis using el'(1) st'(2) by auto
qed

theorem bulk_replace_color_before_literal_witness:
  "applyOperations counting_env
       (export_of 0 [group_node 1 ''g'' [text_node 2 ''t'' ''Intro'']] [])
       [(empty_op ''edit'')\<lparr>op_uid := Some ''t'', content := Some ''color:red text''\<rparr>]
     = Inr (export_of 100
              [group_node 101 ''g'' [text_node 102 ''t'' ''color:red text'']] [])
   \<and> findElementByUid [group_node 101 ''g'' [text_node 102 ''t'' ''color:red text'']]
         (Ref ''t'')
       = Some (text_node 102 ''t'' ''color:red text'')
   \<and> (case applyOperations counting_env
             (export_of 0 [group_node 1 ''g'' [text_node 2 ''t'' ''Intro'']] [])
             ([(empty_op ''edit'')\<lparr>op_uid := Some ''t'',
                                    content := Some ''color:red text''\<rparr>]
              @ [(empty_op ''bulk_replace'')\<lparr>uids := Some [''g'', ''t'', ''zz''],
                    find_color := Some ''red'', replace_color := Some ''blue'',
                    op_find := Some ''text'', op_replace := Some ''words''\<rparr>]) of
         Inl err \<Rightarrow> False
       | Inr after \<Rightarrow>
           map_option element_text (findElementByUid (Stencil_elements after) (Ref ''t''))
             = Some (Some ''color:#0066cc text'')
           \<and> applyOperations counting_env
               (export_of 0 [group_node 1 ''g'' [text_node 2 ''t'' ''Intro'']] [])
               ([(empty_op ''edit'')\<lparr>op_uid := Some ''t'',
                                      content := Some ''color:red text''\<rparr>]
                @ [(empty_op ''bulk_replace'')\<lparr>uids := Some [''g'', ''t'', ''zz''],
                      find_color := Some ''red'', replace_color := Some ''blue'',
                      op_find := None, op_replace := None\<rparr>])
             = Inr after)"
proof -
  let ?d = "export_of 0 [group_node 1 ''g'' [text_node 2 ''t'' ''Intro'']] []"
  let ?ops = "[(empty_op ''edit'')\<lparr>op_uid := Some ''t'',
                                    content := Some ''color:red text''\<rparr>]"
  let ?op = "(empty_op ''bulk_replace'')\<lparr>uids := Some [''g'', ''t'', ''zz''],
                    find_color := Some ''red'', replace_color := Some ''blue'',
                    op_find := Some ''text'', op_replace := Some ''words''\<rparr>"
  let ?before = "export_of 100
              [group_node 101 ''g'' [text_node 102 ''t'' ''color:red text'']] []"
  let ?el = "text_node 102 ''t'' ''color:red text''"
  have h1: "op_type ?op = ''bulk_replace''" by code_simp
  have h2: "uids ?op = Some [''g'', ''t'', ''zz'']" by code_simp
  have h3: "distinct [''g'', ''t'', ''zz'']" by code_simp
  have h4: "''t'' \<in> set [''g'', ''t'', ''zz'']" by code_simp
  have h5: "truthy_str (find_color ?op)" by code_simp
  have h6: "truthy_str (replace_color ?op)" by code_simp
  have h7: "applyOperations counting_env ?d ?ops = Inr ?before" by code_simp
  have h8: "findElementByUid (Stencil_elements ?before) (Ref ''t'') = Some ?el" by code_simp
  have h9: "truthy_str (element_text ?el)" by code_simp
  have v: "replaceColorsInHtml (the (element_text ?el)) (the (find_color ?op))
             (the (replace_color ?op)) = Inr ''color:#0066cc text''" by code_simp
  have ok: "case applyOperations counting_env ?d (?ops @ [?op]) of
              Inl err \<Rightarrow> False | Inr after \<Rightarrow> True" by code_simp
  have s: "Stencil_elements ?before
             = [group_node 101 ''g'' [text_node 102 ''t'' ''color:red text'']]"
    by (simp add: export_of_def)
  have o: "?op\<lparr>op_find := None, op_replace := None\<rparr>
             = (empty_op ''bulk_replace'')\<lparr>uids := Some [''g'', ''t'', ''zz''],
                      find_color := Some ''red'', replace_color := Some ''blue'',
                      op_find := None, op_replace := None\<rparr>" by simp
  show ?thesis
  proof (cases "applyOperations counting_env ?d (?ops @ [?op])")
    case (Inl err)
    with ok show ?thesis by simp
  next
    case (Inr after)
    from bulk_replace_color_before_literal[OF h1 h2 h3 h4 h5 h6 h7 h8 h9 Inr, of None None]
      h7 h8 v Inr s o show ?thesis by auto
  qed
qed

section \<open>Keywords in declaration contexts\<close>

text \<open>
  C9, as stated: a keyword of the family is rewritten only immediately after one of
  the property names \<open>color\<close>, \<open>background-color\<close>, \<open>border-color\<close> and a colon, and
  is left unchanged anywhere else in the text. The regular expression of the keyword
  stage is not anchored on the left, so the letters \<open>color\<close> at the end of any longer
  word count as the property name: the keyword after \<open>discolor:\<close> is rewritten.
\<close>

theorem keyword_rewritten_after_longer_word:
  "replaceColorsInHtml ''discolor: red'' ''red'' ''blue'' = Inr ''discolor: #0066cc''"
  by code_simp

text \<open>
  C9, as amended. For every text, every color family with keywords and every
  replacement color, the result of \<open>replaceColorsInHtml\<close> is the text that the
  hexadecimal and the functional-notation stages give, in which the keyword stage has
  rewritten keywords of the family only where the keyword follows the letters of
  \<open>color\<close>, \<open>background-color\<close> or \<open>border-color\<close> in any case (wherever these letters
  stand, also at the end of a longer word), optional white space, a colon and optional
  white space, and is followed by the end of a word; the property name, the colon and
  the white space are kept and every other character is copied as it is. The result
  is a chain of such rewrites, one for each keyword of the family.
\<close>

theorem keywords_rewritten_in_declarations_only:
  assumes "map_of keyword_table findColor = Some kws"
    and "replaceColorsInHtml html findColor replaceColor = Inr out"
  shows "\<exists>mid. replace_rgb findColor (getTargetColor replaceColor)
                 (replace_hex findColor (getTargetColor replaceColor) html) = Inr mid
           \<and> keyword_rewrites kws mid out"
proof -
  let ?t = "getTargetColor replaceColor"
  obtain mid where mid: "replace_rgb findColor ?t (replace_hex findColor ?t html) = Inr mid"
    using assms(2)
    by (cases "replace_rgb findColor ?t (replace_hex findColor ?t html)")
      (simp_all add: replaceColorsInHtml_def Let_def)
  then have "out = foldl (\<lambda>result kw. replace_keyword (target_text ?t) kw result) mid kws"
    using assms by (simp add: replaceColorsInHtml_def Let_def replace_keywords_def)
  then show ?thesis using mid replace_keywords_rewrites[of kws mid "target_text ?t"] by simp
qed

theorem keywords_rewritten_in_declarations_only_witness:
  "map_of keyword_table ''red''
     = Some [''red'', ''crimson'', ''darkred'', ''firebrick'', ''indianred'', ''maroon'']
   \<and> replaceColorsInHtml ''a red fox; color: red'' ''red'' ''blue''
       = Inr ''a red fox; color: #0066cc''
   \<and> (\<exists>mid. replace_rgb ''red'' (getTargetColor ''blue'')
                 (replace_hex ''red'' (getTargetColor ''blue'') ''a red fox; color: red'')
               = Inr mid
           \<and> keyword_rewrites
               [''red'', ''crimson'', ''darkred'', ''firebrick'', ''indianred'', ''maroon'']
               mid ''a red fox; color: #0066cc'')"
proof -
  have h: "map_of keyword_table ''red''
             = Some [''red'', ''crimson'', ''darkred'', ''firebrick'', ''indianred'', ''maroon'']"
    by code_simp
  have v: "replaceColorsInHtml ''a red fox; color: red'' ''red'' ''blue''
             = Inr ''a red fox; color: #0066cc''"
    by code_simp
  from keywords_rewritten_in_declarations_only[OF h v] h v show ?thesis by simp
qed

text \<open>
  The stages before the keyword stage do not look at declaration contexts: the
  functional-notation stage replaces a literal of the family together with what stands
  in its parentheses, a keyword too.
\<close>

lemma rgb_stage_drops_text_in_parentheses:
  "replaceColorsInHtml ''rgb(255,0,0 red)'' ''red'' ''blue'' = Inr ''rgb(0, 102, 204)''"
  by code_simp

section \<open>The input document\<close>

text \<open>
  C6. \<open>applyOperations\<close> does not modify the document it is given: it works on a deep
  copy and returns the copy. An object can change only if the interpreter writes to
  it, so: if the objects of the input document were allocated before the call (their
  addresses are below \<open>heap_top\<close>), then, when the call returns, none of the objects
  that the batch has written to is an object of the input document, and the document
  returned shares no object with the input document.
\<close>

theorem input_document_is_not_written:
  assumes "list_all (\<lambda>a. a < heap_top e) (document_addresses d)"
    and "applyOperations e d ops = Inr out"
  shows "\<exists>st. run_operations e ops (initial_state e d) = Inr st
           \<and> set (st_written st) \<inter> set (document_addresses d) = {}
           \<and> set (document_addresses out) \<inter> set (document_addresses d) = {}"
proof -
  obtain st where st: "run_operations e ops (initial_state e d) = Inr st"
    and out: "out = d\<lparr>doc_addr := st_root st, Stencil_elements := st_elements st,
                       ModelAttribute := st_modelAttrs st\<rparr>"
    using assms(2) by (auto simp: applyOperations_def split: sum.splits)
  have inv: "works_on_copy (heap_top e) st" using frame_run[OF frame_initial st] .
  have w: "\<forall>a \<in> set (st_written st). heap_top e \<le> a"
    using inv by (simp add: works_on_copy_def list_all_iff)
  have o: "\<forall>a \<in> set (document_addresses out). heap_top e \<le> a"
    using inv out
    by (simp add: works_on_copy_def document_addresses_def all_nodes_addresses(2) list_all_iff)
  have i: "\<forall>a \<in> set (document_addresses d). a < heap_top e"
    using assms(1) by (simp add: list_all_iff)
  have "set (st_written st) \<inter> set (document_addresses d) = {}" using w i by fastforce
  moreover have "set (document_addresses out) \<inter> set (document_addresses d) = {}"
    using o i by fastforce
  ultimately show ?thesis using st by blast
qed

text \<open>
  A batch with an \<open>add\<close>, an \<open>edit\<close>, a \<open>move\<close>, a \<open>clone_subtree\<close> and a \<open>delete\<close> on the
  sample document, whose objects are at the addresses 0 to 3: the batch writes to the
  objects at 100 to 108 only.
\<close>

theorem input_document_is_not_written_witness:
  "list_all (\<lambda>a. a < heap_top counting_env) (document_addresses section_doc)
   \<and> document_addresses section_doc = [0, 1, 2, 3]
   \<and> map_sum id st_written
       (run_operations counting_env
          [(empty_op ''add'')\<lparr>target := Some ''g'', op_element_type := Some ''field'',
                              field_name := Some ''budget'', position := Some ''inside''\<rparr>,
           (empty_op ''edit'')\<lparr>op_uid := Some ''x'', content := Some ''Hello''\<rparr>,
           (empty_op ''move'')\<lparr>op_uid := Some ''x'', target := Some ''f1'',
                               position := Some ''before''\<rparr>,
           (empty_op ''clone_subtree'')\<lparr>source_uid := Some ''g'',
                                        field_suffix := Some ''_y2''\<rparr>,
           (empty_op ''delete'')\<lparr>op_uid := Some ''f1''\<rparr>]
          (initial_state counting_env section_doc))
     = Inr [100, 101, 103, 100, 101, 105, 106, 107, 108, 100, 100, 101]
   \<and> (case applyOperations counting_env section_doc
         [(empty_op ''add'')\<lparr>target := Some ''g'', op_element_type := Some ''field'',
                             field_name := Some ''budget'', position := Some ''inside''\<rparr>,
          (empty_op ''edit'')\<lparr>op_uid := Some ''x'', content := Some ''Hello''\<rparr>,
          (empty_op ''move'')\<lparr>op_uid := Some ''x'', target := Some ''f1'',
                              position := Some ''before''\<rparr>,
          (empty_op ''clone_subtree'')\<lparr>source_uid := Some ''g'',
                                       field_suffix := Some ''_y2''\<rparr>,
          (empty_op ''delete'')\<lparr>op_uid := Some ''f1''\<rparr>] of
         Inl err \<Rightarrow> False
       | Inr out \<Rightarrow>
           (\<exists>st. run_operations counting_env
                   [(empty_op ''add'')\<lparr>target := Some ''g'', op_element_type := Some ''field'',
                                       field_name := Some ''budget'',
                                       position := Some ''inside''\<rparr>,
                    (empty_op ''edit'')\<lparr>op_uid := Some ''x'', content := Some ''Hello''\<rparr>,
                    (empty_op ''move'')\<lparr>op_uid := Some ''x'', target := Some ''f1'',
                                        position := Some ''before''\<rparr>,
                    (empty_op ''clone_subtree'')\<lparr>source_uid := Some ''g'',
                                                 field_suffix := Some ''_y2''\<rparr>,
                    (empty_op ''delete'')\<lparr>op_uid := Some ''f1''\<rparr>]
                   (initial_state counting_env section_doc) = Inr st
               \<and> set (st_written st) \<inter> set (document_addresses section_doc) = {}
               \<and> set (document_addresses out) \<inter> set (document_addresses section_doc) = {}))"
proof -
  let ?ops = "[(empty_op ''add'')\<lparr>target := Some ''g'', op_element_type := Some ''field'',
                             field_name := Some ''budget'', position := Some ''inside''\<rparr>,
          (empty_op ''edit'')\<lparr>op_uid := Some ''x'', content := Some ''Hello''\<rparr>,
          (empty_op ''move'')\<lparr>op_uid := Some ''x'', target := Some ''f1'',
                              position := Some ''before''\<rparr>,
          (empty_op ''clone_subtree'')\<lparr>source_uid := Some ''g'',
                                       field_suffix := Some ''_y2''\<rparr>,
          (empty_op ''delete'')\<lparr>op_uid := Some ''f1''\<rparr>]"
  have h1: "list_all (\<lambda>a. a < heap_top counting_env) (document_addresses section_doc)"
    by code_simp
  have h2: "document_addresses section_doc = [0, 1, 2, 3]" by code_simp
  have h3: "map_sum id st_written
              (run_operations counting_env ?ops (initial_state counting_env section_doc))
            = Inr [100, 101, 103, 100, 101, 105, 106, 107, 108, 100, 100, 101]"
    by code_simp
  have ok: "\<not> isl (applyOperations counting_env section_doc ?ops)" by code_simp
  show ?thesis
  proof (cases "applyOperations counting_env section_doc ?ops")
    case (Inl err)
    with ok show ?thesis by simp
  next
    case (Inr out)
    from input_document_is_not_written[OF h1 Inr] h1 h2 h3 Inr show ?thesis by simp
  qed
qed

section \<open>Idempotence of the color rewrite\<close>





end
